theory Spec2Isabelle
  imports Main "HOL-Library.Word" "HOL-Library.Monad_Syntax"
begin

section \<open>A blocking message-queue character device: the data model\<close>

text \<open>
  The driver keeps one global queue of messages as a singly linked list of
  heap-allocated nodes. Each node points to a separately allocated
  \<open>message_queue_data\<close>, which in turn points to a separately allocated byte
  buffer. The three kinds of object live in three typed heaps (maps from
  addresses to values); a C pointer is an \<open>addr option\<close> with \<open>None\<close> for
  \<open>NULL\<close>. The field \<open>next\<close> of a node is written \<open>nxt\<close>.

  Machine integers: \<open>char\<close> is an 8-bit word, \<open>unsigned short\<close> a 16-bit word,
  \<open>unsigned int\<close> a 32-bit word, \<open>unsigned long\<close> and \<open>size_t\<close> 64-bit words
  (the LP64 kernel ABI). Return codes are \<open>int\<close>.
\<close>

type_synonym addr = nat
type_synonym byte = "8 word"
type_synonym ushort = "16 word"
type_synonym uint = "32 word"
type_synonym ulong = "64 word"
type_synonym size_t = "64 word"

record message_queue_data =
  message :: "addr option"
  message_size :: ushort

record message_queue_node =
  data :: "addr option"
  nxt :: "addr option"

record message_queue =
  head :: "addr option"
  rear :: "addr option"
  messages_size :: ulong

text \<open>
  The kernel state the driver touches: the global \<open>queuep\<close> (\<open>None\<close> when the
  pointer is \<open>NULL\<close>), the global \<open>MAX_MESSAGES_SIZE\<close>, and the three heaps.
\<close>

record kstate =
  queuep :: "message_queue option"
  MAX_MESSAGES_SIZE :: ulong
  nodes :: "addr \<rightharpoonup> message_queue_node"
  datas :: "addr \<rightharpoonup> message_queue_data"
  bufs :: "addr \<rightharpoonup> byte list"

text \<open>
  The results of the three \<open>kmalloc\<close> calls of one \<open>enqueue\<close>, chosen by the
  allocator: \<open>None\<close> is an allocation failure.
\<close>

record kmallocs =
  km_node :: "addr option"
  km_data :: "addr option"
  km_message :: "addr option"

text \<open>
  What a file operation does from the caller's side: it returns a value, it
  sleeps in \<open>wait_event\<close> (with no other thread running, for ever), or it
  dereferences an invalid pointer.
\<close>

datatype outcome = Oops | Blocked | Returned int

datatype copy_result = Copy_done "byte list" | Copy_efault "byte list" | Copy_oops

definition SUCCESS :: int where
  "SUCCESS = 0"

definition EFAULT :: int where
  "EFAULT = 14"

definition EINVAL :: int where
  "EINVAL = 22"

definition MAX_MESSAGE_SIZE :: size_t where
  "MAX_MESSAGE_SIZE = 4096"

definition CHANGE_MAX_MESSAGES_SIZE :: uint where
  "CHANGE_MAX_MESSAGES_SIZE = 0"

section \<open>The queue operations\<close>

text \<open>\<open>kfree\<close> on each heap; \<open>kfree(NULL)\<close> does nothing.\<close>

definition kfree_node :: "kstate \<Rightarrow> addr option \<Rightarrow> kstate" where
  "kfree_node s p = (case p of None \<Rightarrow> s | Some a \<Rightarrow> s\<lparr>nodes := (nodes s)(a := None)\<rparr>)"

definition kfree_data :: "kstate \<Rightarrow> addr option \<Rightarrow> kstate" where
  "kfree_data s p = (case p of None \<Rightarrow> s | Some a \<Rightarrow> s\<lparr>datas := (datas s)(a := None)\<rparr>)"

definition kfree_message :: "kstate \<Rightarrow> addr option \<Rightarrow> kstate" where
  "kfree_message s p = (case p of None \<Rightarrow> s | Some a \<Rightarrow> s\<lparr>bufs := (bufs s)(a := None)\<rparr>)"

text \<open>
  \<open>initialise_queue\<close>: the argument says whether \<open>kmalloc\<close> succeeded. The state
  after module initialisation has the default limit of 2 MiB and no objects.
\<close>

definition initialise_queue :: "bool \<Rightarrow> message_queue option" where
  "initialise_queue ok =
     (if ok then Some \<lparr>head = None, rear = None, messages_size = 0\<rparr> else None)"

definition init_state :: "bool \<Rightarrow> kstate" where
  "init_state ok =
     \<lparr>queuep = initialise_queue ok, MAX_MESSAGES_SIZE = 2097152,
      nodes = Map.empty, datas = Map.empty, bufs = Map.empty\<rparr>"

text \<open>
  The locked tail of \<open>enqueue\<close> (source lines 302 to 314): link the node at the
  rear, then add \<open>queuep->rear->data->message_size\<close> to the byte count. The
  result is \<open>None\<close> where the C code would dereference a pointer that is not
  a live object.
\<close>

definition enqueue_link :: "kstate \<Rightarrow> message_queue \<Rightarrow> addr \<Rightarrow> (int \<times> kstate) option" where
  "enqueue_link s q tmp_node =
     do {
       (s1, q1) \<leftarrow>
         (case rear q of
            None \<Rightarrow> Some (s, q\<lparr>head := Some tmp_node, rear := Some tmp_node\<rparr>)
          | Some r \<Rightarrow>
              do {
                rn \<leftarrow> nodes s r;
                let rn' = rn\<lparr>nxt := Some tmp_node\<rparr>;
                Some (s\<lparr>nodes := (nodes s)(r \<mapsto> rn')\<rparr>, q\<lparr>rear := nxt rn'\<rparr>)
              });
       r \<leftarrow> rear q1;
       rn \<leftarrow> nodes s1 r;
       d \<leftarrow> data rn;
       dat \<leftarrow> datas s1 d;
       Some (SUCCESS,
             s1\<lparr>queuep := Some (q1\<lparr>messages_size := messages_size q1 + ucast (message_size dat)\<rparr>)\<rparr>)
     }"

text \<open>
  \<open>enqueue\<close>. A freshly allocated \<open>message_queue_data\<close> is uninitialised in C;
  the model gives its \<open>message_size\<close> the placeholder 0 until line 300 writes
  it (the code never reads it before). \<open>memcpy\<close> copies \<open>message_size\<close> bytes
  of the caller's array.
\<close>

definition enqueue :: "kstate \<Rightarrow> kmallocs \<Rightarrow> byte list \<Rightarrow> ushort \<Rightarrow> (int \<times> kstate) option" where
  "enqueue s km msg msg_size =
     (case queuep s of
        None \<Rightarrow> Some (SUCCESS, s)
      | Some q \<Rightarrow>
          (case km_node km of
             None \<Rightarrow> Some (- 1, s)
           | Some tmp_node \<Rightarrow>
               let s1 = s\<lparr>nodes := (nodes s)(tmp_node \<mapsto> \<lparr>data = km_data km, nxt = None\<rparr>)\<rparr> in
               (case km_data km of
                  None \<Rightarrow> Some (- 1, kfree_node s1 (Some tmp_node))
                | Some d \<Rightarrow>
                    let s2 = s1\<lparr>datas := (datas s1)(d \<mapsto>
                                 \<lparr>message = km_message km, message_size = 0\<rparr>)\<rparr> in
                    (case km_message km of
                       None \<Rightarrow> Some (- 1, kfree_node (kfree_data s2 (Some d)) (Some tmp_node))
                     | Some m \<Rightarrow>
                         let s3 = s2\<lparr>bufs := (bufs s2)(m \<mapsto> take (unat msg_size) msg),
                                     datas := (datas s2)(d \<mapsto>
                                       \<lparr>message = Some m, message_size = msg_size\<rparr>)\<rparr> in
                         enqueue_link s3 q tmp_node))))"

text \<open>
  \<open>dequeue\<close> returns the \<open>data\<close> pointer of the removed node (\<open>NULL\<close> when the
  queue pointer or the head is \<open>NULL\<close>) and frees the node.
\<close>

definition dequeue :: "kstate \<Rightarrow> (addr option \<times> kstate) option" where
  "dequeue s =
     (case queuep s of
        None \<Rightarrow> Some (None, s)
      | Some q \<Rightarrow>
          (case head q of
             None \<Rightarrow> Some (None, s)
           | Some h \<Rightarrow>
               do {
                 q1 \<leftarrow> (if head q = rear q
                        then do { rn \<leftarrow> nodes s h; Some (q\<lparr>rear := nxt rn\<rparr>) }
                        else Some q);
                 tmp_node \<leftarrow> nodes s h;
                 d \<leftarrow> data tmp_node;
                 dat \<leftarrow> datas s d;
                 let q2 = q1\<lparr>head := nxt tmp_node,
                             messages_size := messages_size q1 - ucast (message_size dat)\<rparr>;
                 Some (data tmp_node, kfree_node (s\<lparr>queuep := Some q2\<rparr>) (Some h))
               }))"

definition is_queue_empty :: "kstate \<Rightarrow> int" where
  "is_queue_empty s =
     (case queuep s of
        None \<Rightarrow> - 1
      | Some q \<Rightarrow> if messages_size q = 0 then 1 else 0)"

definition is_space_in_queue :: "kstate \<Rightarrow> ushort \<Rightarrow> int" where
  "is_space_in_queue s len =
     (case queuep s of
        None \<Rightarrow> - 1
      | Some q \<Rightarrow> if messages_size q + ucast len > MAX_MESSAGES_SIZE s then 0 else 1)"

section \<open>The file operations\<close>

text \<open>
  The copy loop of \<open>device_read\<close> (source lines 122 to 134). \<open>ucap\<close> is the
  number of bytes of the user buffer that \<open>put_user\<close> can write; the third
  argument is \<open>tmp_length\<close>, the fourth \<open>bytes_read\<close>, the last the bytes
  written to the user so far. The message byte is read only when
  \<open>tmp_length\<close> is not 0.
\<close>

fun read_loop :: "nat \<Rightarrow> byte list option \<Rightarrow> nat \<Rightarrow> nat \<Rightarrow> byte list \<Rightarrow> copy_result" where
  "read_loop ucap tmp_message 0 bytes_read out = Copy_done out"
| "read_loop ucap tmp_message (Suc tmp_length) bytes_read out =
     (case tmp_message of
        None \<Rightarrow> Copy_oops
      | Some buf \<Rightarrow>
          if length buf \<le> bytes_read then Copy_oops
          else if buf ! bytes_read = 0 then Copy_done out
          else if ucap \<le> bytes_read then Copy_efault out
          else read_loop ucap tmp_message tmp_length (Suc bytes_read) (out @ [buf ! bytes_read]))"

text \<open>
  \<open>device_read\<close> with a user buffer of \<open>ucap\<close> writable bytes and the requested
  \<open>length\<close>. The result is the outcome, the bytes written to the user buffer
  and the new state.
\<close>

definition device_read :: "kstate \<Rightarrow> nat \<Rightarrow> size_t \<Rightarrow> outcome \<times> byte list \<times> kstate" where
  "device_read s ucap len =
     (if is_queue_empty s \<noteq> 0 then (Blocked, [], s)
      else
        (case dequeue s of
           None \<Rightarrow> (Oops, [], s)
         | Some (tmp_data, s1) \<Rightarrow>
             (case tmp_data of
                None \<Rightarrow> (Oops, [], s1)
              | Some d \<Rightarrow>
                  (case datas s1 d of
                     None \<Rightarrow> (Oops, [], s1)
                   | Some dat \<Rightarrow>
                       let tmp_length = (if ucast (message_size dat) \<ge> len
                                         then ucast len else message_size dat) :: ushort;
                           s2 = kfree_data (kfree_message s1 (message dat)) (Some d)
                       in
                       (case read_loop ucap
                               (case message dat of None \<Rightarrow> None | Some m \<Rightarrow> bufs s1 m)
                               (unat tmp_length) 0 [] of
                          Copy_oops \<Rightarrow> (Oops, [], s1)
                        | Copy_efault out \<Rightarrow> (Returned (- EFAULT), out, s2)
                        | Copy_done out \<Rightarrow> (Returned (int (length out)), out, s2))))))"

text \<open>
  The copy loop of \<open>device_write\<close> (source lines 163 to 169). \<open>ubuf\<close> holds the
  bytes \<open>get_user\<close> can read at the user address; reading past them fails.
\<close>

fun write_loop :: "byte list \<Rightarrow> nat \<Rightarrow> nat \<Rightarrow> byte list \<Rightarrow> byte list option" where
  "write_loop ubuf 0 i tmp_message = Some tmp_message"
| "write_loop ubuf (Suc n) i tmp_message =
     (if length ubuf \<le> i then None
      else write_loop ubuf n (Suc i) (tmp_message @ [ubuf ! i]))"

definition device_write :: "kstate \<Rightarrow> kmallocs \<Rightarrow> byte list \<Rightarrow> size_t \<Rightarrow> outcome \<times> kstate" where
  "device_write s km ubuf len =
     (if len > MAX_MESSAGE_SIZE then (Returned (- EINVAL), s)
      else if is_space_in_queue s (ucast len) \<noteq> 1 then (Blocked, s)
      else
        (case write_loop ubuf (unat len) 0 [] of
           None \<Rightarrow> (Returned (- EFAULT), s)
         | Some tmp_message \<Rightarrow>
             (case enqueue s km tmp_message (ucast len) of
                None \<Rightarrow> (Oops, s)
              | Some (r, s') \<Rightarrow>
                  if r \<noteq> SUCCESS then (Returned (- EFAULT), s')
                  else (Returned (int (unat len)), s'))))"

definition device_ioctl :: "kstate \<Rightarrow> uint \<Rightarrow> ulong \<Rightarrow> outcome \<times> kstate" where
  "device_ioctl s ioctl_num ioctl_param =
     (if ioctl_num = CHANGE_MAX_MESSAGES_SIZE then
        (case queuep s of
           None \<Rightarrow> (Oops, s)
         | Some q \<Rightarrow>
             if ioctl_param > messages_size q
             then (Returned SUCCESS, s\<lparr>MAX_MESSAGES_SIZE := ioctl_param\<rparr>)
             else (Returned (- EINVAL), s))
      else (Returned (- EINVAL), s))"

section \<open>The list the heap represents\<close>

text \<open>
  One queued message as the heap stores it: the addresses of its node, of
  its \<open>message_queue_data\<close> and of its byte buffer, the bytes of the buffer
  and the \<open>message_size\<close> field.
\<close>

record cell =
  c_node :: addr
  c_data :: addr
  c_msg :: addr
  c_bytes :: "byte list"
  c_size :: ushort

text \<open>The node addresses at the two ends of a list of cells (\<open>NULL\<close> for the empty list).\<close>

definition first_node :: "cell list \<Rightarrow> addr option" where
  "first_node cs = (case cs of [] \<Rightarrow> None | c # _ \<Rightarrow> Some (c_node c))"

definition last_node :: "cell list \<Rightarrow> addr option" where
  "last_node cs = (if cs = [] then None else Some (c_node (last cs)))"

text \<open>
  \<open>linked N D B cs\<close>: in the heaps \<open>N\<close>, \<open>D\<close>, \<open>B\<close> the cells of \<open>cs\<close> are chained
  through their \<open>next\<close> pointers in this order, the last \<open>next\<close> being \<open>NULL\<close>,
  and each node points to its data object, which holds the size and points
  to the buffer with the bytes.
\<close>

fun linked :: "(addr \<rightharpoonup> message_queue_node) \<Rightarrow> (addr \<rightharpoonup> message_queue_data) \<Rightarrow>
    (addr \<rightharpoonup> byte list) \<Rightarrow> cell list \<Rightarrow> bool" where
  "linked N D B [] = True"
| "linked N D B (c # cs) =
     (N (c_node c) = Some \<lparr>data = Some (c_data c), nxt = first_node cs\<rparr> \<and>
      D (c_data c) = Some \<lparr>message = Some (c_msg c), message_size = c_size c\<rparr> \<and>
      B (c_msg c) = Some (c_bytes c) \<and>
      linked N D B cs)"

text \<open>The sum of the stored lengths of the messages of a list.\<close>

definition stored_bytes :: "cell list \<Rightarrow> nat" where
  "stored_bytes cs = sum_list (map (\<lambda>c. unat (c_size c)) cs)"

text \<open>
  \<open>represents s cs\<close>: the queue of state \<open>s\<close> is well formed and holds exactly
  the messages \<open>cs\<close>, oldest first. \<open>head\<close> points to the first node and \<open>rear\<close>
  to the last (both \<open>NULL\<close> when there is none), following \<open>next\<close> from \<open>head\<close>
  visits the nodes of \<open>cs\<close> in order, no object is shared between two
  messages, and \<open>messages_size\<close> is the sum of the stored lengths computed
  in \<open>unsigned long\<close>.
\<close>

definition represents :: "kstate \<Rightarrow> cell list \<Rightarrow> bool" where
  "represents s cs =
     ((case queuep s of
         None \<Rightarrow> False
       | Some q \<Rightarrow> head q = first_node cs \<and> rear q = last_node cs \<and>
                  messages_size q = of_nat (stored_bytes cs)) \<and>
      linked (nodes s) (datas s) (bufs s) cs \<and>
      distinct (map c_node cs) \<and> distinct (map c_data cs) \<and> distinct (map c_msg cs))"

text \<open>
  The contract of \<open>kmalloc\<close> for one \<open>enqueue\<close>: an address it returns is not
  the address of a live object of that heap.
\<close>

definition kmalloc_fresh :: "kstate \<Rightarrow> kmallocs \<Rightarrow> bool" where
  "kmalloc_fresh s km =
     ((case km_node km of None \<Rightarrow> True | Some a \<Rightarrow> nodes s a = None) \<and>
      (case km_data km of None \<Rightarrow> True | Some a \<Rightarrow> datas s a = None) \<and>
      (case km_message km of None \<Rightarrow> True | Some a \<Rightarrow> bufs s a = None))"

text \<open>The cell that \<open>enqueue\<close> builds from the three addresses, the caller's array and the size.\<close>

definition new_cell :: "addr \<Rightarrow> addr \<Rightarrow> addr \<Rightarrow> byte list \<Rightarrow> ushort \<Rightarrow> cell" where
  "new_cell n d m msg sz =
     \<lparr>c_node = n, c_data = d, c_msg = m, c_bytes = take (unat sz) msg, c_size = sz\<rparr>"

text \<open>
  What the caller of \<open>dequeue\<close> finds through the returned pointer: the bytes
  of the buffer and the stored size (\<open>None\<close> when a pointer on the way is
  not valid).
\<close>

definition message_at :: "kstate \<Rightarrow> addr option \<Rightarrow> (byte list \<times> ushort) option" where
  "message_at s p =
     do {
       d \<leftarrow> p;
       dat \<leftarrow> datas s d;
       m \<leftarrow> message dat;
       b \<leftarrow> bufs s m;
       Some (b, message_size dat)
     }"

text \<open>
  A run of sends that all complete: every \<open>enqueue\<close> returns \<open>SUCCESS\<close>.
  \<open>allocs_fresh\<close> says that the allocator kept its contract at each of them.
  \<open>receives s k\<close> calls \<open>dequeue\<close> \<open>k\<close> times and collects the messages found.
\<close>

fun sends :: "kstate \<Rightarrow> (kmallocs \<times> byte list \<times> ushort) list \<Rightarrow> kstate option" where
  "sends s [] = Some s"
| "sends s ((km, msg, sz) # xs) =
     (case enqueue s km msg sz of
        None \<Rightarrow> None
      | Some (r, s') \<Rightarrow> if r = SUCCESS then sends s' xs else None)"

fun allocs_fresh :: "kstate \<Rightarrow> (kmallocs \<times> byte list \<times> ushort) list \<Rightarrow> bool" where
  "allocs_fresh s [] = True"
| "allocs_fresh s ((km, msg, sz) # xs) =
     (kmalloc_fresh s km \<and>
      (case enqueue s km msg sz of None \<Rightarrow> True | Some (r, s') \<Rightarrow> allocs_fresh s' xs))"

fun receives :: "kstate \<Rightarrow> nat \<Rightarrow> ((byte list \<times> ushort) list \<times> kstate) option" where
  "receives s 0 = Some ([], s)"
| "receives s (Suc k) =
     (case dequeue s of
        None \<Rightarrow> None
      | Some (p, s1) \<Rightarrow>
          (case message_at s1 p of
             None \<Rightarrow> None
           | Some x \<Rightarrow>
               (case receives s1 k of
                  None \<Rightarrow> None
                | Some (xs, s2) \<Rightarrow> Some (x # xs, s2))))"

text \<open>The cell a completed send leaves in the queue.\<close>

definition sent_cell :: "kmallocs \<times> byte list \<times> ushort \<Rightarrow> cell" where
  "sent_cell x =
     (case x of (km, msg, sz) \<Rightarrow>
        new_cell (the (km_node km)) (the (km_data km)) (the (km_message km)) msg sz)"

text \<open>Every buffer has as many bytes as its \<open>message_size\<close> says.\<close>

definition well_sized :: "cell list \<Rightarrow> bool" where
  "well_sized cs = list_all (\<lambda>c. length (c_bytes c) = unat (c_size c)) cs"

section \<open>Reachable states\<close>

text \<open>
  The bytes of all live message buffers. They occupy disjoint parts of a
  64-bit address space, so an allocator cannot have \<open>2 ^ 64\<close> of them live:
  \<open>kmalloc_ok\<close> adds this to the contract of \<open>kmalloc\<close> for a write of \<open>len\<close>
  bytes.
\<close>

definition live_bytes :: "kstate \<Rightarrow> nat" where
  "live_bytes s = (\<Sum>a\<in>dom (bufs s). length (the (bufs s a)))"

definition kmalloc_ok :: "kstate \<Rightarrow> kmallocs \<Rightarrow> size_t \<Rightarrow> bool" where
  "kmalloc_ok s km len =
     (kmalloc_fresh s km \<and>
      (km_message km \<noteq> None \<longrightarrow> live_bytes s + unat len < 2 ^ 64))"

text \<open>
  The states reached from a successful module initialisation by file
  operations that return, each one running to its end before the next
  starts. \<open>enqueue\<close> and \<open>dequeue\<close> are called by \<open>device_write\<close> and \<open>device_read\<close>
  only, after the admission test and the emptiness test.
\<close>

inductive reachable :: "kstate \<Rightarrow> bool" where
  reach_init: "reachable (init_state True)"
| reach_write:
    "reachable s \<Longrightarrow> kmalloc_ok s km len \<Longrightarrow>
     device_write s km ubuf len = (Returned r, s') \<Longrightarrow> reachable s'"
| reach_read:
    "reachable s \<Longrightarrow> device_read s ucap len = (Returned r, out, s') \<Longrightarrow> reachable s'"
| reach_ioctl:
    "reachable s \<Longrightarrow> device_ioctl s ioctl_num ioctl_param = (Returned r, s') \<Longrightarrow>
     reachable s'"

text \<open>
  \<open>queue_inv s cs\<close>: the queue of \<open>s\<close> is well formed and holds the messages
  \<open>cs\<close>, every buffer has the size its \<open>message_size\<close> says, finitely many
  buffers are live and they hold fewer than \<open>2 ^ 64\<close> bytes, and the byte count
  is within the limit. With \<open>cs\<close> empty this is a well-formed empty queue;
  the state after module initialisation is one.
\<close>

definition queue_inv :: "kstate \<Rightarrow> cell list \<Rightarrow> bool" where
  "queue_inv s cs =
     (represents s cs \<and> well_sized cs \<and> finite (dom (bufs s)) \<and>
      stored_bytes cs \<le> live_bytes s \<and> live_bytes s < 2 ^ 64 \<and>
      (of_nat (stored_bytes cs) :: ulong) \<le> MAX_MESSAGES_SIZE s)"

section \<open>Runs of sends and receives\<close>





section \<open>Concurrent senders\<close>

text \<open>
  Several threads in \<open>device_write\<close>. The mutex makes each locked region
  atomic, and \<open>device_write\<close> has two of them with the lock released in
  between: the test \<open>is_space_in_queue\<close> inside \<open>wait_event\<close>, and the linking
  at the end of \<open>enqueue\<close>. A sender is therefore in one of three places:
  before the test (\<open>Waiting\<close>: it has not yet passed \<open>wait_event\<close>, or sleeps
  in it), after a test that succeeded and before its \<open>enqueue\<close> (\<open>Admitted\<close>),
  or returned (\<open>Finished\<close>). Each step of the interleaving runs one sender
  from one place to the next without interruption.
\<close>

datatype sender = Waiting "byte list" size_t | Admitted "byte list" size_t | Finished outcome

text \<open>\<open>device_write\<close> up to and including the test of \<open>wait_event\<close> (source lines 148 to 154).\<close>

definition device_write_admit :: "kstate \<Rightarrow> byte list \<Rightarrow> size_t \<Rightarrow> sender" where
  "device_write_admit s ubuf len =
     (if len > MAX_MESSAGE_SIZE then Finished (Returned (- EINVAL))
      else if is_space_in_queue s (ucast len) \<noteq> 1 then Waiting ubuf len
      else Admitted ubuf len)"

text \<open>\<open>device_write\<close> after \<open>wait_event\<close> (source lines 157 to 179).\<close>

definition device_write_commit :: "kstate \<Rightarrow> kmallocs \<Rightarrow> byte list \<Rightarrow> size_t \<Rightarrow> outcome \<times> kstate" where
  "device_write_commit s km ubuf len =
     (case write_loop ubuf (unat len) 0 [] of
        None \<Rightarrow> (Returned (- EFAULT), s)
      | Some tmp_message \<Rightarrow>
          (case enqueue s km tmp_message (ucast len) of
             None \<Rightarrow> (Oops, s)
           | Some (r, s') \<Rightarrow>
               if r \<noteq> SUCCESS then (Returned (- EFAULT), s')
               else (Returned (int (unat len)), s')))"

definition sender_step :: "kstate \<Rightarrow> kmallocs \<Rightarrow> sender \<Rightarrow> sender \<times> kstate" where
  "sender_step s km t =
     (case t of
        Waiting ubuf len \<Rightarrow> (device_write_admit s ubuf len, s)
      | Admitted ubuf len \<Rightarrow>
          (case device_write_commit s km ubuf len of (r, s') \<Rightarrow> (Finished r, s'))
      | Finished r \<Rightarrow> (Finished r, s))"

text \<open>
  A schedule is the list of the senders that run, in order, each with the
  results of the allocations of its step.
\<close>

fun run_schedule :: "kstate \<Rightarrow> sender list \<Rightarrow> (nat \<times> kmallocs) list \<Rightarrow> kstate \<times> sender list" where
  "run_schedule s ts [] = (s, ts)"
| "run_schedule s ts ((i, km) # sched) =
     (if i < length ts
      then (case sender_step s km (ts ! i) of (t', s') \<Rightarrow> run_schedule s' (ts[i := t']) sched)
      else run_schedule s ts sched)"

section \<open>Concrete states and inputs used to exercise the theorems\<close>

text \<open>
  A queue holding one message of 100 bytes (each byte 65), under the default
  limit of 2 MiB.
\<close>

definition one_message_state :: kstate where
  "one_message_state =
     \<lparr>queuep = Some \<lparr>head = Some 1, rear = Some 1, messages_size = 100\<rparr>,
      MAX_MESSAGES_SIZE = 2097152,
      nodes = [1 \<mapsto> \<lparr>data = Some 2, nxt = None\<rparr>],
      datas = [2 \<mapsto> \<lparr>message = Some 3, message_size = 100\<rparr>],
      bufs = [3 \<mapsto> replicate 100 65]\<rparr>"

text \<open>
  A queue holding one message of 10 bytes, none of them zero, and a queue
  holding one message of 5 bytes whose third byte is zero.
\<close>

definition ten_byte_state :: kstate where
  "ten_byte_state =
     \<lparr>queuep = Some \<lparr>head = Some 1, rear = Some 1, messages_size = 10\<rparr>,
      MAX_MESSAGES_SIZE = 2097152,
      nodes = [1 \<mapsto> \<lparr>data = Some 2, nxt = None\<rparr>],
      datas = [2 \<mapsto> \<lparr>message = Some 3, message_size = 10\<rparr>],
      bufs = [3 \<mapsto> [1, 2, 3, 4, 5, 6, 7, 8, 9, 10]]\<rparr>"

definition ten_byte_cell :: cell where
  "ten_byte_cell =
     \<lparr>c_node = 1, c_data = 2, c_msg = 3, c_bytes = [1, 2, 3, 4, 5, 6, 7, 8, 9, 10],
      c_size = 10\<rparr>"

definition zero_byte_state :: kstate where
  "zero_byte_state =
     \<lparr>queuep = Some \<lparr>head = Some 1, rear = Some 1, messages_size = 5\<rparr>,
      MAX_MESSAGES_SIZE = 2097152,
      nodes = [1 \<mapsto> \<lparr>data = Some 2, nxt = None\<rparr>],
      datas = [2 \<mapsto> \<lparr>message = Some 3, message_size = 5\<rparr>],
      bufs = [3 \<mapsto> [72, 105, 0, 33, 33]]\<rparr>"

definition zero_byte_cell :: cell where
  "zero_byte_cell =
     \<lparr>c_node = 1, c_data = 2, c_msg = 3, c_bytes = [72, 105, 0, 33, 33], c_size = 5\<rparr>"

text \<open>Two answers of the allocator, with addresses that differ.\<close>

definition km_a :: kmallocs where
  "km_a = \<lparr>km_node = Some 1, km_data = Some 2, km_message = Some 3\<rparr>"

definition km_b :: kmallocs where
  "km_b = \<lparr>km_node = Some 4, km_data = Some 5, km_message = Some 6\<rparr>"









text \<open>
  An empty queue whose limit the resize command has set to 8 bytes; two
  senders of 8 bytes each (the limit divided by \<open>N - 1\<close> for \<open>N = 2\<close>).
\<close>

definition limit8_state :: kstate where
  "limit8_state = snd (device_ioctl (init_state True) CHANGE_MAX_MESSAGES_SIZE 8)"

definition two_senders :: "sender list" where
  "two_senders = [Waiting [1, 2, 3, 4, 5, 6, 7, 8] 8, Waiting [9, 10, 11, 12, 13, 14, 15, 16] 8]"

text \<open>
  The schedule in which both senders pass the admission test before either
  enqueues, and the state it ends in.
\<close>

definition race_schedule :: "(nat \<times> kmallocs) list" where
  "race_schedule = [(0, km_a), (1, km_b), (0, km_a), (1, km_b)]"

definition race_final :: kstate where
  "race_final = fst (run_schedule limit8_state two_senders race_schedule)"

section \<open>The per-message cap\<close>

text \<open>
  C3. A \<open>device_write\<close> of more than 4096 bytes returns \<open>-EINVAL\<close> (the spec's
  TooLarge) at once: the outcome is a return, not a sleep, and the whole
  kernel state (head, rear, byte count, limit and every heap object) is the
  one before the call, whatever the allocator or the user buffer would have
  done.
\<close>

theorem device_write_too_large:
  "4096 < unat len \<Longrightarrow> device_write s km ubuf len = (Returned (- EINVAL), s)"
proof -
  assume "4096 < unat len"
  then have "MAX_MESSAGE_SIZE < len"
    by (simp add: MAX_MESSAGE_SIZE_def word_less_nat_alt)
  then show ?thesis
    by (simp add: device_write_def)
qed

theorem device_write_too_large_witness:
  "4096 < unat (4097 :: size_t) \<and>
   device_write one_message_state
     \<lparr>km_node = Some 4, km_data = Some 5, km_message = Some 6\<rparr> (replicate 4097 65) 4097
   = (Returned (- 22), one_message_state)"
  using device_write_too_large [of 4097 one_message_state
      "\<lparr>km_node = Some 4, km_data = Some 5, km_message = Some 6\<rparr>" "replicate 4097 65"]
  by (simp add: EINVAL_def)

section \<open>Resizing the aggregate limit\<close>

text \<open>
  C2. With the resize command, \<open>device_ioctl\<close> returns \<open>SUCCESS\<close> exactly when
  the parameter is strictly greater than the bytes queued now; it then
  stores the parameter as the new limit, whatever the old limit was, and
  otherwise returns \<open>-EINVAL\<close> and changes nothing. With 100 bytes queued,
  50 and 100 are refused and 101 is accepted.
\<close>

theorem resize_guard:
  "queuep s = Some q \<Longrightarrow>
   (fst (device_ioctl s CHANGE_MAX_MESSAGES_SIZE x) = Returned SUCCESS
      \<longleftrightarrow> messages_size q < x) \<and>
   (messages_size q < x \<longrightarrow>
      device_ioctl s CHANGE_MAX_MESSAGES_SIZE x
        = (Returned SUCCESS, s\<lparr>MAX_MESSAGES_SIZE := x\<rparr>)) \<and>
   (\<not> messages_size q < x \<longrightarrow>
      device_ioctl s CHANGE_MAX_MESSAGES_SIZE x = (Returned (- EINVAL), s)) \<and>
   (messages_size q = 100 \<longrightarrow>
      fst (device_ioctl s CHANGE_MAX_MESSAGES_SIZE 50) = Returned (- EINVAL) \<and>
      fst (device_ioctl s CHANGE_MAX_MESSAGES_SIZE 101) = Returned SUCCESS \<and>
      fst (device_ioctl s CHANGE_MAX_MESSAGES_SIZE 100) = Returned (- EINVAL))"
  by (simp add: device_ioctl_def SUCCESS_def EINVAL_def)

theorem resize_guard_witness:
  "queuep one_message_state = Some \<lparr>head = Some 1, rear = Some 1, messages_size = 100\<rparr> \<and>
   device_ioctl one_message_state 0 101
     = (Returned 0, one_message_state\<lparr>MAX_MESSAGES_SIZE := 101\<rparr>) \<and>
   (101 :: ulong) < MAX_MESSAGES_SIZE one_message_state \<and>
   device_ioctl one_message_state 0 100 = (Returned (- 22), one_message_state) \<and>
   device_ioctl one_message_state 0 50 = (Returned (- 22), one_message_state)"
  using resize_guard [of one_message_state
      "\<lparr>head = Some 1, rear = Some 1, messages_size = 100\<rparr>" 101]
    resize_guard [of one_message_state
      "\<lparr>head = Some 1, rear = Some 1, messages_size = 100\<rparr>" 100]
    resize_guard [of one_message_state
      "\<lparr>head = Some 1, rear = Some 1, messages_size = 100\<rparr>" 50]
  by (simp add: one_message_state_def CHANGE_MAX_MESSAGES_SIZE_def SUCCESS_def EINVAL_def)

text \<open>
  C9. A \<open>device_ioctl\<close> that does not return \<open>SUCCESS\<close> (a refused resize, or
  any other command number) returns \<open>-EINVAL\<close>; it does not sleep, and the
  state after it is the state before: the queue's head, rear and byte
  count, every linked node and message, and the aggregate limit.
\<close>

theorem device_ioctl_rejected_frame:
  "queuep s = Some q \<Longrightarrow> fst (device_ioctl s ioctl_num x) \<noteq> Returned SUCCESS \<Longrightarrow>
   device_ioctl s ioctl_num x = (Returned (- EINVAL), s)"
  by (simp add: device_ioctl_def split: if_splits)

theorem device_ioctl_rejected_frame_witness:
  "queuep one_message_state = Some \<lparr>head = Some 1, rear = Some 1, messages_size = 100\<rparr> \<and>
   fst (device_ioctl one_message_state 0 100) \<noteq> Returned SUCCESS \<and>
   device_ioctl one_message_state 0 100 = (Returned (- 22), one_message_state)"
proof -
  have q: "queuep one_message_state
             = Some \<lparr>head = Some 1, rear = Some 1, messages_size = 100\<rparr>"
    by (simp add: one_message_state_def)
  have r: "fst (device_ioctl one_message_state 0 100) \<noteq> Returned SUCCESS"
    by (simp add: device_ioctl_def one_message_state_def CHANGE_MAX_MESSAGES_SIZE_def
        SUCCESS_def EINVAL_def)
  from device_ioctl_rejected_frame [OF q r] q r show ?thesis
    by (simp add: EINVAL_def)
qed

section \<open>Lemmas on linked lists in the heap\<close>

lemma linked_agree:
  "(\<And>c. c \<in> set cs \<Longrightarrow> N' (c_node c) = N (c_node c) \<and> D' (c_data c) = D (c_data c) \<and>
      B' (c_msg c) = B (c_msg c)) \<Longrightarrow>
   linked N' D' B' cs = linked N D B cs"
  by (induction cs) auto

lemma linked_live:
  "linked N D B cs \<Longrightarrow> c \<in> set cs \<Longrightarrow>
   N (c_node c) \<noteq> None \<and> D (c_data c) \<noteq> None \<and> B (c_msg c) \<noteq> None"
  by (induction cs) auto

lemma linked_last:
  "linked N D B cs \<Longrightarrow> cs \<noteq> [] \<Longrightarrow>
   N (c_node (last cs)) = Some \<lparr>data = Some (c_data (last cs)), nxt = None\<rparr>"
  by (induction cs) (auto simp: first_node_def)

lemma first_node_append: "xs \<noteq> [] \<Longrightarrow> first_node (xs @ ys) = first_node xs"
  by (cases xs) (simp_all add: first_node_def)

lemma linked_snoc:
  "linked N D B cs \<Longrightarrow> cs \<noteq> [] \<Longrightarrow>
   N' (c_node (last cs)) = Some \<lparr>data = Some (c_data (last cs)), nxt = Some (c_node c)\<rparr> \<Longrightarrow>
   N' (c_node c) = Some \<lparr>data = Some (c_data c), nxt = None\<rparr> \<Longrightarrow>
   D' (c_data c) = Some \<lparr>message = Some (c_msg c), message_size = c_size c\<rparr> \<Longrightarrow>
   B' (c_msg c) = Some (c_bytes c) \<Longrightarrow>
   (\<And>x. x \<in> set (butlast cs) \<Longrightarrow> N' (c_node x) = N (c_node x)) \<Longrightarrow>
   (\<And>x. x \<in> set cs \<Longrightarrow> D' (c_data x) = D (c_data x) \<and> B' (c_msg x) = B (c_msg x)) \<Longrightarrow>
   linked N' D' B' (cs @ [c])"
proof (induction cs)
  case Nil
  then show ?case by simp
next
  case (Cons x xs)
  show ?case
  proof (cases "xs = []")
    case True
    with Cons.prems show ?thesis
      by (simp add: first_node_def)
  next
    case False
    have tl: "linked N' D' B' (xs @ [c])"
    proof (rule Cons.IH)
      show "linked N D B xs" using Cons.prems(1) by simp
      show "xs \<noteq> []" by (rule False)
      show "N' (c_node (last xs)) = Some \<lparr>data = Some (c_data (last xs)), nxt = Some (c_node c)\<rparr>"
        using Cons.prems(3) False by simp
      show "N' (c_node c) = Some \<lparr>data = Some (c_data c), nxt = None\<rparr>" by (rule Cons.prems(4))
      show "D' (c_data c) = Some \<lparr>message = Some (c_msg c), message_size = c_size c\<rparr>"
        by (rule Cons.prems(5))
      show "B' (c_msg c) = Some (c_bytes c)" by (rule Cons.prems(6))
      show "N' (c_node y) = N (c_node y)" if "y \<in> set (butlast xs)" for y
        using Cons.prems(7) [of y] that False by simp
      show "D' (c_data y) = D (c_data y) \<and> B' (c_msg y) = B (c_msg y)" if "y \<in> set xs" for y
        using Cons.prems(8) [of y] that by simp
    qed
    have hd: "N' (c_node x) = N (c_node x)"
      using Cons.prems(7) [of x] False by simp
    have dx: "D' (c_data x) = D (c_data x) \<and> B' (c_msg x) = B (c_msg x)"
      using Cons.prems(8) [of x] by simp
    from Cons.prems(1) hd dx tl False show ?thesis
      by (simp add: first_node_append)
  qed
qed

lemma stored_bytes_snoc: "stored_bytes (cs @ [c]) = stored_bytes cs + unat (c_size c)"
  by (simp add: stored_bytes_def)

lemma last_node_snoc: "last_node (cs @ [c]) = Some (c_node c)"
  by (simp add: last_node_def)



section \<open>Enqueue and dequeue on the represented list\<close>

lemma enqueue_empty:
  assumes r: "represents s []"
  shows "case enqueue s \<lparr>km_node = Some n, km_data = Some d, km_message = Some m\<rparr> msg sz of
           None \<Rightarrow> False
         | Some (r, s') \<Rightarrow> r = SUCCESS \<and> represents s' [new_cell n d m msg sz] \<and>
             bufs s' = (bufs s)(m \<mapsto> take (unat sz) msg) \<and>
             MAX_MESSAGES_SIZE s' = MAX_MESSAGES_SIZE s"
  using r 
  by (auto simp: represents_def enqueue_def enqueue_link_def first_node_def last_node_def
      new_cell_def stored_bytes_def split: option.splits)

lemma enqueue_nonempty:
  assumes r: "represents s cs" and ne: "cs \<noteq> []"
    and f: "nodes s n = None" "datas s d = None" "bufs s m = None"
  shows "case enqueue s \<lparr>km_node = Some n, km_data = Some d, km_message = Some m\<rparr> msg sz of
           None \<Rightarrow> False
         | Some (r, s') \<Rightarrow> r = SUCCESS \<and> represents s' (cs @ [new_cell n d m msg sz]) \<and>
             bufs s' = (bufs s)(m \<mapsto> take (unat sz) msg) \<and>
             MAX_MESSAGES_SIZE s' = MAX_MESSAGES_SIZE s"
proof -
  let ?c = "new_cell n d m msg sz"
  obtain q where q: "queuep s = Some q" "head q = first_node cs" "rear q = last_node cs"
      "messages_size q = of_nat (stored_bytes cs)"
    using r by (auto simp: represents_def split: option.splits)
  have l: "linked (nodes s) (datas s) (bufs s) cs"
    and dist: "distinct (map c_node cs)" "distinct (map c_data cs)" "distinct (map c_msg cs)"
    using r by (auto simp: represents_def)
  have nn: "n \<notin> c_node ` set cs" and dn: "d \<notin> c_data ` set cs" and mn: "m \<notin> c_msg ` set cs"
    using linked_live [OF l] f by force+
  have last: "nodes s (c_node (last cs)) = Some \<lparr>data = Some (c_data (last cs)), nxt = None\<rparr>"
    by (rule linked_last [OF l ne])
  have nl: "n \<noteq> c_node (last cs)"
    using nn ne by auto
  let ?N = "(nodes s)(n \<mapsto> \<lparr>data = Some d, nxt = None\<rparr>,
              c_node (last cs) \<mapsto> \<lparr>data = Some (c_data (last cs)), nxt = Some n\<rparr>)"
  let ?D = "(datas s)(d \<mapsto> \<lparr>message = Some m, message_size = sz\<rparr>)"
  let ?B = "(bufs s)(m \<mapsto> take (unat sz) msg)"
  let ?s' = "s\<lparr>nodes := ?N, bufs := ?B, datas := ?D,
               queuep := Some (q\<lparr>rear := Some n,
                 messages_size := messages_size q + ucast sz\<rparr>)\<rparr>"
  have e: "enqueue s \<lparr>km_node = Some n, km_data = Some d, km_message = Some m\<rparr> msg sz
             = Some (SUCCESS, ?s')"
    using q ne last nl
    by (simp add: enqueue_def enqueue_link_def last_node_def)
  have lk: "linked ?N ?D ?B (cs @ [?c])"
  proof (rule linked_snoc [OF l ne])
    show "?N (c_node (last cs)) = Some \<lparr>data = Some (c_data (last cs)), nxt = Some (c_node ?c)\<rparr>"
      by (simp add: new_cell_def)
    show "?N (c_node ?c) = Some \<lparr>data = Some (c_data ?c), nxt = None\<rparr>"
      using nl by (simp add: new_cell_def)
    show "?D (c_data ?c) = Some \<lparr>message = Some (c_msg ?c), message_size = c_size ?c\<rparr>"
      by (simp add: new_cell_def)
    show "?B (c_msg ?c) = Some (c_bytes ?c)"
      by (simp add: new_cell_def)
    show "?N (c_node x) = nodes s (c_node x)" if "x \<in> set (butlast cs)" for x
    proof -
      have "x \<in> set cs" using that by (rule in_set_butlastD)
      then have "c_node x \<noteq> n" using nn by auto
      moreover have "c_node x \<noteq> c_node (last cs)"
      proof
        assume eq: "c_node x = c_node (last cs)"
        have "cs = butlast cs @ [last cs]" using ne by simp
        then have "distinct (map c_node (butlast cs @ [last cs]))" using dist(1) by simp
        then have "c_node (last cs) \<notin> c_node ` set (butlast cs)" by simp
        moreover from that have "c_node x \<in> c_node ` set (butlast cs)" by (rule imageI)
        ultimately show False using eq by simp
      qed
      ultimately show ?thesis by simp
    qed
    show "?D (c_data x) = datas s (c_data x) \<and> ?B (c_msg x) = bufs s (c_msg x)"
      if "x \<in> set cs" for x
      using that dn mn by auto
  qed
  have "represents ?s' (cs @ [?c])"
    using q lk dist nn dn mn ne
    by (simp add: represents_def first_node_append last_node_snoc stored_bytes_snoc)
       (simp add: new_cell_def)
  with e show ?thesis by simp
qed

lemma notin_imageD: "a \<notin> f ` A \<Longrightarrow> x \<in> A \<Longrightarrow> f x \<noteq> a"
  by blast

lemma dequeue_represents:
  assumes r: "represents s (c # cs)"
  shows "case dequeue s of
           None \<Rightarrow> False
         | Some (p, s') \<Rightarrow> p = Some (c_data c) \<and> represents s' cs \<and>
             nodes s' = (nodes s)(c_node c := None) \<and>
             datas s' = datas s \<and> bufs s' = bufs s \<and>
             MAX_MESSAGES_SIZE s' = MAX_MESSAGES_SIZE s"
proof -
  obtain q where q: "queuep s = Some q" "head q = Some (c_node c)"
      "rear q = last_node (c # cs)"
      "messages_size q = of_nat (stored_bytes (c # cs))"
    using r by (auto simp: represents_def first_node_def split: option.splits)
  have l: "linked (nodes s) (datas s) (bufs s) cs"
    and hn: "nodes s (c_node c) = Some \<lparr>data = Some (c_data c), nxt = first_node cs\<rparr>"
    and hd: "datas s (c_data c) = Some \<lparr>message = Some (c_msg c), message_size = c_size c\<rparr>"
    and dist: "distinct (map c_node cs)" "distinct (map c_data cs)" "distinct (map c_msg cs)"
    and nn: "c_node c \<notin> c_node ` set cs"
    using r by (auto simp: represents_def)
  have sz: "messages_size q - ucast (c_size c) = of_nat (stored_bytes cs)"
    using q(4) by (simp add: stored_bytes_def)
  have "linked ((nodes s)(c_node c := None)) (datas s) (bufs s) cs
          = linked (nodes s) (datas s) (bufs s) cs"
  proof (rule linked_agree)
    fix x assume "x \<in> set cs"
    with nn have "c_node x \<noteq> c_node c" by (rule notin_imageD)
    then show "((nodes s)(c_node c := None)) (c_node x) = nodes s (c_node x) \<and>
        datas s (c_data x) = datas s (c_data x) \<and> bufs s (c_msg x) = bufs s (c_msg x)"
      by simp
  qed
  with l have l': "linked ((nodes s)(c_node c := None)) (datas s) (bufs s) cs"
    by simp
  show ?thesis
  proof (cases "cs = []")
    case True
    with q hn hd sz show ?thesis
      by (simp add: dequeue_def last_node_def first_node_def represents_def kfree_node_def)
  next
    case False
    then have "last cs \<in> set cs" by simp
    with nn have "c_node (last cs) \<noteq> c_node c" by (rule notin_imageD)
    then have neq: "head q \<noteq> rear q"
      using q False by (simp add: last_node_def)
    from q hn hd sz neq l' dist False show ?thesis
      by (simp add: dequeue_def last_node_def represents_def kfree_node_def)
  qed
qed

lemma represents_queuep: "represents s cs \<Longrightarrow> queuep s \<noteq> None"
  by (auto simp: represents_def split: option.splits)

lemma write_loop_eq:
  "write_loop ubuf n i acc =
     (if n = 0 \<or> i + n \<le> length ubuf then Some (acc @ take n (drop i ubuf)) else None)"
proof (induction n arbitrary: i acc)
  case 0
  then show ?case by simp
next
  case (Suc n)
  show ?case
  proof (cases "i < length ubuf")
    case True
    then have "take (Suc n) (drop i ubuf) = ubuf ! i # take n (drop (Suc i) ubuf)"
      by (simp add: Cons_nth_drop_Suc [symmetric])
    with True Suc.IH [of "Suc i" "acc @ [ubuf ! i]"] show ?thesis by simp
  next
    case False
    then show ?thesis by simp
  qed
qed



lemma represents_init: "represents (init_state True) []"
  by (simp add: represents_def init_state_def initialise_queue_def first_node_def
      last_node_def stored_bytes_def)

lemma enqueue_failure:
  assumes q: "queuep s \<noteq> None" and f: "kmalloc_fresh s km"
    and n: "km_node km = None \<or> km_data km = None \<or> km_message km = None"
  shows "enqueue s km msg sz = Some (- 1, s)"
proof -
  have idem: "\<And>(h :: addr \<rightharpoonup> 'a) a. h a = None \<Longrightarrow> h(a := None) = h"
    by (rule fun_upd_idem)
  show ?thesis
  proof (cases "km_node km")
    case None
    with q show ?thesis by (auto simp: enqueue_def)
  next
    case n: (Some tmp_node)
    with f have fn: "nodes s tmp_node = None" by (simp add: kmalloc_fresh_def)
    show ?thesis
    proof (cases "km_data km")
      case None
      with q n fn show ?thesis
        by (auto simp: enqueue_def kfree_node_def idem)
    next
      case d: (Some d)
      with f have fd: "datas s d = None" by (simp add: kmalloc_fresh_def)
      from n d assms(3) have "km_message km = None" by simp
      with q n d fn fd show ?thesis
        by (auto simp: enqueue_def kfree_node_def kfree_data_def idem)
    qed
  qed
qed

lemma enqueue_represents:
  assumes r: "represents s cs" and f: "kmalloc_fresh s km"
    and km: "km_node km = Some n" "km_data km = Some d" "km_message km = Some m"
  shows "case enqueue s km msg sz of
           None \<Rightarrow> False
         | Some (r, s') \<Rightarrow> r = SUCCESS \<and> represents s' (cs @ [new_cell n d m msg sz]) \<and>
             bufs s' = (bufs s)(m \<mapsto> take (unat sz) msg) \<and>
             MAX_MESSAGES_SIZE s' = MAX_MESSAGES_SIZE s"
proof -
  have eq: "km = \<lparr>km_node = Some n, km_data = Some d, km_message = Some m\<rparr>"
    using km by simp
  from f km have fr: "nodes s n = None" "datas s d = None" "bufs s m = None"
    by (simp_all add: kmalloc_fresh_def)
  show ?thesis
  proof (cases "cs = []")
    case True
    with r have "represents s []" by simp
    from enqueue_empty [OF this, of n d m msg sz] show ?thesis
      unfolding eq True append_Nil .
  next
    case False
    from enqueue_nonempty [OF r False fr] show ?thesis unfolding eq by simp
  qed
qed

lemma enqueue_success_allocs:
  assumes "queuep s \<noteq> None" "kmalloc_fresh s km" "enqueue s km msg sz = Some (SUCCESS, s')"
  shows "\<exists>n d m. km_node km = Some n \<and> km_data km = Some d \<and> km_message km = Some m"
proof (rule ccontr)
  assume "\<not> ?thesis"
  then have "km_node km = None \<or> km_data km = None \<or> km_message km = None" by auto
  from enqueue_failure [OF assms(1,2) this, of msg sz] assms(3) show False
    by (simp add: SUCCESS_def)
qed

section \<open>First in, first out\<close>

lemma sends_represents:
  "represents s cs \<Longrightarrow> allocs_fresh s xs \<Longrightarrow> sends s xs = Some s' \<Longrightarrow>
   represents s' (cs @ map sent_cell xs)"
proof (induction xs arbitrary: s cs)
  case Nil
  then show ?case by simp
next
  case (Cons x xs)
  obtain km msg sz where x: "x = (km, msg, sz)" by (cases x)
  from Cons.prems(3) x obtain s1 where e: "enqueue s km msg sz = Some (SUCCESS, s1)"
    and rest: "sends s1 xs = Some s'"
    by (auto split: option.splits if_splits)
  from Cons.prems(2) x e have f: "kmalloc_fresh s km" and f1: "allocs_fresh s1 xs"
    by simp_all
  have q: "queuep s \<noteq> None" using Cons.prems(1) by (rule represents_queuep)
  from enqueue_success_allocs [OF q f e] obtain n d m
    where km: "km_node km = Some n" "km_data km = Some d" "km_message km = Some m" by blast
  from enqueue_represents [OF Cons.prems(1) f km, of msg sz] e
  have r1: "represents s1 (cs @ [new_cell n d m msg sz])" by simp
  from Cons.IH [OF r1 f1 rest] x km show ?case
    by (simp add: sent_cell_def)
qed

lemma receives_represents:
  "represents s cs \<Longrightarrow>
   \<exists>s'. receives s (length cs) = Some (map (\<lambda>c. (c_bytes c, c_size c)) cs, s') \<and>
        represents s' []"
proof (induction cs arbitrary: s)
  case Nil
  then show ?case by simp
next
  case (Cons c cs)
  from dequeue_represents [OF Cons.prems] obtain s1
    where d: "dequeue s = Some (Some (c_data c), s1)" and r1: "represents s1 cs"
      and frame: "datas s1 = datas s" "bufs s1 = bufs s"
    by (auto split: option.splits)
  from Cons.prems have
    "datas s (c_data c) = Some \<lparr>message = Some (c_msg c), message_size = c_size c\<rparr>"
    "bufs s (c_msg c) = Some (c_bytes c)"
    by (simp_all add: represents_def)
  with frame have m: "message_at s1 (Some (c_data c)) = Some (c_bytes c, c_size c)"
    by (simp add: message_at_def)
  from Cons.IH [OF r1] obtain s' where
    "receives s1 (length cs) = Some (map (\<lambda>c. (c_bytes c, c_size c)) cs, s')" "represents s' []"
    by blast
  with d m show ?case by simp
qed

text \<open>
  The list itself is never reordered: from an empty queue, after \<open>k\<close> calls
  of \<open>enqueue\<close> that return \<open>SUCCESS\<close>, \<open>k\<close> calls of \<open>dequeue\<close> hand back the
  stored messages in the order of the calls of \<open>enqueue\<close>.
\<close>

lemma enqueue_dequeue_order:
  "represents s [] \<Longrightarrow> allocs_fresh s xs \<Longrightarrow> sends s xs = Some s1 \<Longrightarrow>
   \<exists>s2. receives s1 (length xs)
           = Some (map (\<lambda>(km, msg, sz). (take (unat sz) msg, sz)) xs, s2)"
proof -
  assume a: "represents s []" "allocs_fresh s xs" "sends s xs = Some s1"
  from sends_represents [OF a] have "represents s1 (map sent_cell xs)" by simp
  from receives_represents [OF this] obtain s2 where
    "receives s1 (length xs)
       = Some (map (\<lambda>c. (c_bytes c, c_size c)) (map sent_cell xs), s2)"
    by auto
  moreover have "map (\<lambda>c. (c_bytes c, c_size c)) (map sent_cell xs)
      = map (\<lambda>(km, msg, sz). (take (unat sz) msg, sz)) xs"
    by (simp add: sent_cell_def new_cell_def split_def)
  ultimately show ?thesis by simp
qed

section \<open>Allocation failure in enqueue\<close>

text \<open>
  C7. Enqueue is all or nothing. On a well-formed queue, with an allocator
  that hands out addresses that are not live: if any of the three
  allocations fails, \<open>enqueue\<close> returns \<open>-1\<close> and the state after it is the state
  before (head, rear, byte count and all three heaps, so the node and data
  allocated before the failure are released), and \<open>device_write\<close> reports the
  failure to its caller as \<open>-EFAULT\<close>; if all three succeed, \<open>enqueue\<close> returns
  \<open>SUCCESS\<close>, the new node is the last of the list with \<open>rear\<close> pointing to it,
  and the byte count has grown by the message length.
\<close>

theorem enqueue_all_or_nothing:
  "represents s cs \<Longrightarrow> kmalloc_fresh s km \<Longrightarrow>
   (km_node km = None \<or> km_data km = None \<or> km_message km = None \<longrightarrow>
      enqueue s km msg sz = Some (- 1, s) \<and>
      (\<forall>ubuf len. len \<le> MAX_MESSAGE_SIZE \<and> is_space_in_queue s (ucast len) = 1 \<and>
          write_loop ubuf (unat len) 0 [] \<noteq> None \<longrightarrow>
          device_write s km ubuf len = (Returned (- EFAULT), s))) \<and>
   (\<forall>n d m. km_node km = Some n \<and> km_data km = Some d \<and> km_message km = Some m \<longrightarrow>
      (\<exists>s' q q'. enqueue s km msg sz = Some (SUCCESS, s') \<and>
         represents s' (cs @ [new_cell n d m msg sz]) \<and>
         queuep s = Some q \<and> queuep s' = Some q' \<and> rear q' = Some n \<and>
         messages_size q' = messages_size q + ucast sz))"
proof (intro conjI impI allI)
  assume r: "represents s cs" and f: "kmalloc_fresh s km"
  assume n: "km_node km = None \<or> km_data km = None \<or> km_message km = None"
  from enqueue_failure [OF represents_queuep [OF r] f n]
  show "enqueue s km msg sz = Some (- 1, s)" .
next
  fix ubuf len
  assume r: "represents s cs" and f: "kmalloc_fresh s km"
  assume n: "km_node km = None \<or> km_data km = None \<or> km_message km = None"
  assume a: "len \<le> MAX_MESSAGE_SIZE \<and> is_space_in_queue s (ucast len) = 1 \<and>
          write_loop ubuf (unat len) 0 [] \<noteq> None"
  then obtain tmp where w: "write_loop ubuf (unat len) 0 [] = Some tmp" by auto
  from a have l: "\<not> MAX_MESSAGE_SIZE < len" by (simp add: not_less)
  from enqueue_failure [OF represents_queuep [OF r] f n, of tmp "ucast len"] a w l
  show "device_write s km ubuf len = (Returned (- EFAULT), s)"
    by (simp add: device_write_def SUCCESS_def)
next
  fix n d m
  assume r: "represents s cs" and f: "kmalloc_fresh s km"
  assume "km_node km = Some n \<and> km_data km = Some d \<and> km_message km = Some m"
  then have km: "km_node km = Some n" "km_data km = Some d" "km_message km = Some m"
    by simp_all
  from enqueue_represents [OF r f km, of msg sz] obtain s'
    where e: "enqueue s km msg sz = Some (SUCCESS, s')"
      and r': "represents s' (cs @ [new_cell n d m msg sz])"
    by (auto split: option.splits)
  from r obtain q where q: "queuep s = Some q" "messages_size q = of_nat (stored_bytes cs)"
    by (auto simp: represents_def split: option.splits)
  from r' obtain q' where q': "queuep s' = Some q'" "rear q' = Some n"
      "messages_size q' = of_nat (stored_bytes (cs @ [new_cell n d m msg sz]))"
    by (auto simp: represents_def last_node_snoc new_cell_def split: option.splits)
  from q q' have "messages_size q' = messages_size q + ucast sz"
    by (simp add: stored_bytes_snoc new_cell_def)
  with e r' q q' show "\<exists>s' q q'. enqueue s km msg sz = Some (SUCCESS, s') \<and>
         represents s' (cs @ [new_cell n d m msg sz]) \<and>
         queuep s = Some q \<and> queuep s' = Some q' \<and> rear q' = Some n \<and>
         messages_size q' = messages_size q + ucast sz"
    by blast
qed

theorem enqueue_all_or_nothing_witness:
  "represents (init_state True) [] \<and>
   kmalloc_fresh (init_state True) \<lparr>km_node = Some 1, km_data = Some 2, km_message = None\<rparr> \<and>
   enqueue (init_state True) \<lparr>km_node = Some 1, km_data = Some 2, km_message = None\<rparr> [7, 8] 2
     = Some (- 1, init_state True) \<and>
   device_write (init_state True) \<lparr>km_node = Some 1, km_data = Some 2, km_message = None\<rparr>
       [7, 8] 2 = (Returned (- 14), init_state True) \<and>
   kmalloc_fresh (init_state True) \<lparr>km_node = Some 1, km_data = Some 2, km_message = Some 3\<rparr> \<and>
   (\<exists>s' q'. enqueue (init_state True)
        \<lparr>km_node = Some 1, km_data = Some 2, km_message = Some 3\<rparr> [7, 8] 2 = Some (0, s') \<and>
      represents s' [new_cell 1 2 3 [7, 8] 2] \<and> queuep s' = Some q' \<and>
      head q' = Some 1 \<and> rear q' = Some 1 \<and> messages_size q' = 2)"
proof -
  let ?bad = "\<lparr>km_node = Some 1, km_data = Some 2, km_message = None\<rparr>"
  let ?good = "\<lparr>km_node = Some 1, km_data = Some 2, km_message = Some 3\<rparr>"
  have fb: "kmalloc_fresh (init_state True) ?bad"
    and fg: "kmalloc_fresh (init_state True) ?good"
    by (simp_all add: kmalloc_fresh_def init_state_def)
  have sp: "(2 :: size_t) \<le> MAX_MESSAGE_SIZE \<and>
      is_space_in_queue (init_state True) (ucast (2 :: size_t)) = 1 \<and>
      write_loop [7, 8] (unat (2 :: size_t)) 0 [] \<noteq> None"
    by (simp add: MAX_MESSAGE_SIZE_def is_space_in_queue_def init_state_def
        initialise_queue_def write_loop_eq)
  from enqueue_all_or_nothing [OF represents_init fb, of "[7, 8]" 2] sp
  have bad: "enqueue (init_state True) ?bad [7, 8] 2 = Some (- 1, init_state True)"
    "device_write (init_state True) ?bad [7, 8] 2 = (Returned (- 14), init_state True)"
    by (auto simp: EFAULT_def)
  from enqueue_all_or_nothing [OF represents_init fg, of "[7, 8]" 2]
  obtain s' q q' where g: "enqueue (init_state True) ?good [7, 8] 2 = Some (SUCCESS, s')"
    "represents s' [new_cell 1 2 3 [7, 8] 2]" "queuep (init_state True) = Some q"
    "queuep s' = Some q'" "rear q' = Some 1" "messages_size q' = messages_size q + ucast (2 :: ushort)"
    by auto
  from g(3) have "messages_size q = 0"
    by (auto simp: init_state_def initialise_queue_def)
  with g have "messages_size q' = 2" by simp
  moreover from g(2,4) have "head q' = Some 1"
    by (simp add: represents_def first_node_def new_cell_def)
  ultimately show ?thesis using represents_init fb fg bad g
    by (auto simp: SUCCESS_def)
qed

section \<open>Receiving\<close>

lemma read_loop_done:
  "i + n \<le> length buf \<Longrightarrow>
   i + length (takeWhile (\<lambda>b. b \<noteq> 0) (take n (drop i buf))) \<le> ucap \<Longrightarrow>
   read_loop ucap (Some buf) n i out
     = Copy_done (out @ takeWhile (\<lambda>b. b \<noteq> 0) (take n (drop i buf)))"
proof (induction n arbitrary: i out)
  case 0
  then show ?case by simp
next
  case (Suc n)
  from Suc.prems(1) have i: "i < length buf" by simp
  then have tk: "take (Suc n) (drop i buf) = buf ! i # take n (drop (Suc i) buf)"
    by (simp add: Cons_nth_drop_Suc [symmetric])
  show ?case
  proof (cases "buf ! i = 0")
    case True
    with i tk show ?thesis by simp
  next
    case False
    with Suc.prems(2) tk have u: "\<not> ucap \<le> i"
      and u': "Suc i + length (takeWhile (\<lambda>b. b \<noteq> 0) (take n (drop (Suc i) buf))) \<le> ucap"
      by simp_all
    from Suc.prems(1) have "Suc i + n \<le> length buf" by simp
    from Suc.IH [OF this u', of "out @ [buf ! i]"] False i u tk show ?thesis
      by simp
  qed
qed

lemma read_loop_no_oops:
  "i + n \<le> length buf \<Longrightarrow> read_loop ucap (Some buf) n i out \<noteq> Copy_oops"
proof (induction n arbitrary: i out)
  case 0
  then show ?case by simp
next
  case (Suc n)
  from Suc.prems have "Suc i + n \<le> length buf" by simp
  from Suc.IH [OF this, of "out @ [buf ! i]"] Suc.prems show ?case
    by simp
qed

lemma unat_ushort_bound: "unat (w :: ushort) < 65536"
  using unsigned_less [of w, where 'a = nat] by simp

lemma unat_ucast_ushort: "unat (ucast (w :: ushort) :: ulong) = unat w"
proof -
  have "unat w < 2 ^ 64" using unat_ushort_bound [of w] by simp
  then show ?thesis
    by (simp add: unsigned_ucast_eq take_bit_nat_eq_self)
qed

lemma unat_ucast_size_t:
  "unat (len :: size_t) < 65536 \<Longrightarrow> unat (ucast len :: ushort) = unat len"
  by (simp add: unsigned_ucast_eq take_bit_nat_eq_self)

lemma tmp_length_min:
  fixes len :: size_t and sz :: ushort
  shows "unat ((if ucast sz \<ge> len then ucast len else sz) :: ushort) = min (unat len) (unat sz)"
proof (cases "ucast sz \<ge> len")
  case True
  then have le: "unat len \<le> unat sz"
    by (simp add: word_le_nat_alt unat_ucast_ushort)
  with unat_ushort_bound [of sz] have "unat len < 65536" by simp
  then have "unat (ucast len :: ushort) = unat len"
    by (rule unat_ucast_size_t)
  with True le show ?thesis by simp
next
  case False
  then have "unat sz < unat len"
    by (simp add: word_le_nat_alt unat_ucast_ushort not_le)
  with False show ?thesis by simp
qed

lemma represents_frame:
  assumes r: "represents s cs"
    and q: "queuep s' = queuep s"
    and a: "\<And>x. x \<in> set cs \<Longrightarrow> nodes s' (c_node x) = nodes s (c_node x) \<and>
               datas s' (c_data x) = datas s (c_data x) \<and> bufs s' (c_msg x) = bufs s (c_msg x)"
  shows "represents s' cs"
proof -
  have "linked (nodes s') (datas s') (bufs s') cs = linked (nodes s) (datas s) (bufs s) cs"
    by (rule linked_agree) (rule a)
  with r q show ?thesis by (simp add: represents_def)
qed

lemma device_read_represents:
  assumes r: "represents s (c # cs)"
    and ws: "length (c_bytes c) = unat (c_size c)"
    and ne: "is_queue_empty s = 0"
  shows "\<exists>s'. represents s' cs \<and>
           nodes s' = (nodes s)(c_node c := None) \<and>
           datas s' = (datas s)(c_data c := None) \<and>
           bufs s' = (bufs s)(c_msg c := None) \<and>
           MAX_MESSAGES_SIZE s' = MAX_MESSAGES_SIZE s \<and>
           (\<forall>ucap len out.
              (read_loop ucap (Some (c_bytes c)) (min (unat len) (unat (c_size c))) 0 [] = Copy_done out
                 \<longrightarrow> device_read s ucap len = (Returned (int (length out)), out, s')) \<and>
              (read_loop ucap (Some (c_bytes c)) (min (unat len) (unat (c_size c))) 0 [] = Copy_efault out
                 \<longrightarrow> device_read s ucap len = (Returned (- EFAULT), out, s')))"
proof -
  from dequeue_represents [OF r] obtain s1
    where d: "dequeue s = Some (Some (c_data c), s1)" and r1: "represents s1 cs"
      and frame: "nodes s1 = (nodes s)(c_node c := None)" "datas s1 = datas s" "bufs s1 = bufs s"
        "MAX_MESSAGES_SIZE s1 = MAX_MESSAGES_SIZE s"
    by (auto split: option.splits)
  from r have dat: "datas s (c_data c) = Some \<lparr>message = Some (c_msg c), message_size = c_size c\<rparr>"
    and buf: "bufs s (c_msg c) = Some (c_bytes c)"
    and dn: "c_data c \<notin> c_data ` set cs" and mn: "c_msg c \<notin> c_msg ` set cs"
    by (simp_all add: represents_def)
  let ?s' = "kfree_data (kfree_message s1 (Some (c_msg c))) (Some (c_data c))"
  have r': "represents ?s' cs"
  proof (rule represents_frame [OF r1])
    show "queuep ?s' = queuep s1"
      by (simp add: kfree_data_def kfree_message_def)
    fix x assume x: "x \<in> set cs"
    from dn x have "c_data x \<noteq> c_data c" by (rule notin_imageD)
    moreover from mn x have "c_msg x \<noteq> c_msg c" by (rule notin_imageD)
    ultimately show "nodes ?s' (c_node x) = nodes s1 (c_node x) \<and>
        datas ?s' (c_data x) = datas s1 (c_data x) \<and> bufs ?s' (c_msg x) = bufs s1 (c_msg x)"
      by (simp add: kfree_data_def kfree_message_def)
  qed
  have fr': "nodes ?s' = (nodes s)(c_node c := None)" "datas ?s' = (datas s)(c_data c := None)"
    "bufs ?s' = (bufs s)(c_msg c := None)" "MAX_MESSAGES_SIZE ?s' = MAX_MESSAGES_SIZE s"
    using frame by (simp_all add: kfree_data_def kfree_message_def)
  have rd: "device_read s ucap len =
      (case read_loop ucap (Some (c_bytes c)) (min (unat len) (unat (c_size c))) 0 [] of
         Copy_oops \<Rightarrow> (Oops, [], s1)
       | Copy_efault out \<Rightarrow> (Returned (- EFAULT), out, ?s')
       | Copy_done out \<Rightarrow> (Returned (int (length out)), out, ?s'))" for ucap len
    using ne d dat buf frame
    by (simp add: device_read_def Let_def tmp_length_min split del: if_split cong: if_cong)
  show ?thesis
    using r' fr' by (intro exI [of _ ?s']) (simp add: rd)
qed

text \<open>
  C4. Truncated receive. Let the message at the head of a well-formed,
  non-empty queue hold no zero byte, and let the user buffer be writable
  for the bytes to deliver. Then \<open>device_read\<close> with the requested \<open>length\<close>
  delivers the first \<open>min length message_size\<close> bytes of the message and
  returns that count: exactly \<open>length\<close> bytes when the message is longer, the
  whole message otherwise. The rest of the message is not kept: the queue
  after the call holds the following messages only, and the message's
  buffer and data object are freed.
\<close>

theorem device_read_truncates:
  "represents s (c # cs) \<Longrightarrow> length (c_bytes c) = unat (c_size c) \<Longrightarrow>
   is_queue_empty s = 0 \<Longrightarrow> 0 \<notin> set (c_bytes c) \<Longrightarrow>
   min (unat len) (unat (c_size c)) \<le> ucap \<Longrightarrow>
   \<exists>s'. device_read s ucap len
          = (Returned (int (min (unat len) (unat (c_size c)))), take (unat len) (c_bytes c), s') \<and>
        length (take (unat len) (c_bytes c)) = min (unat len) (unat (c_size c)) \<and>
        represents s' cs \<and> bufs s' (c_msg c) = None \<and> datas s' (c_data c) = None"
proof -
  assume r: "represents s (c # cs)" and ws: "length (c_bytes c) = unat (c_size c)"
    and ne: "is_queue_empty s = 0" and nz: "0 \<notin> set (c_bytes c)"
    and cap: "min (unat len) (unat (c_size c)) \<le> ucap"
  let ?n = "min (unat len) (unat (c_size c))"
  have all: "takeWhile (\<lambda>b. b \<noteq> 0) (take ?n (c_bytes c)) = take ?n (c_bytes c)"
  proof (rule takeWhile_eq_all_conv [THEN iffD2])
    show "\<forall>x\<in>set (take ?n (c_bytes c)). x \<noteq> 0"
      using nz by (metis in_set_takeD)
  qed
  have tk: "take ?n (c_bytes c) = take (unat len) (c_bytes c)"
    using ws by (simp add: min_def)
  have bound: "0 + ?n \<le> length (c_bytes c)"
    using ws by simp
  have "length (take ?n (c_bytes c)) = ?n"
    using ws by simp
  with cap have cap': "0 + length (takeWhile (\<lambda>b. b \<noteq> 0) (take ?n (drop 0 (c_bytes c)))) \<le> ucap"
    unfolding drop_0 all by simp
  have loop: "read_loop ucap (Some (c_bytes c)) ?n 0 [] = Copy_done (take (unat len) (c_bytes c))"
    using read_loop_done [OF bound cap', of "[]"] all
    by (simp only: drop_0 append_Nil tk)
  from device_read_represents [OF r ws ne] obtain s' where
    s': "represents s' cs" "datas s' = (datas s)(c_data c := None)"
      "bufs s' = (bufs s)(c_msg c := None)"
    and rd: "\<And>ucap len out.
      read_loop ucap (Some (c_bytes c)) (min (unat len) (unat (c_size c))) 0 [] = Copy_done out
        \<Longrightarrow> device_read s ucap len = (Returned (int (length out)), out, s')"
    by blast
  have ln: "length (take (unat len) (c_bytes c)) = ?n"
    using ws by simp
  from rd [OF loop] ln s' show ?thesis
    by (intro exI [of _ s']) simp
qed

theorem device_read_truncates_witness:
  "represents ten_byte_state [ten_byte_cell] \<and>
   is_queue_empty ten_byte_state = 0 \<and>
   (\<exists>s'. device_read ten_byte_state 5 5 = (Returned 5, [1, 2, 3, 4, 5], s') \<and>
         represents s' []) \<and>
   (\<exists>s'. device_read ten_byte_state 20 20
           = (Returned 10, [1, 2, 3, 4, 5, 6, 7, 8, 9, 10], s') \<and> represents s' [])"
proof -
  have r: "represents ten_byte_state [ten_byte_cell]"
    by (simp add: represents_def ten_byte_state_def ten_byte_cell_def first_node_def
        last_node_def stored_bytes_def)
  have ws: "length (c_bytes ten_byte_cell) = unat (c_size ten_byte_cell)"
    by (simp add: ten_byte_cell_def)
  have ne: "is_queue_empty ten_byte_state = 0"
    by (simp add: is_queue_empty_def ten_byte_state_def)
  have nz: "0 \<notin> set (c_bytes ten_byte_cell)"
    by (simp add: ten_byte_cell_def)
  have c5: "min (unat (5 :: size_t)) (unat (c_size ten_byte_cell)) \<le> 5"
    and c20: "min (unat (20 :: size_t)) (unat (c_size ten_byte_cell)) \<le> 20"
    by (simp_all add: ten_byte_cell_def)
  from device_read_truncates [OF r ws ne nz c5]
  have a: "\<exists>s'. device_read ten_byte_state 5 5 = (Returned 5, [1, 2, 3, 4, 5], s') \<and>
         represents s' []"
    by (auto simp: ten_byte_cell_def)
  from device_read_truncates [OF r ws ne nz c20]
  have b: "\<exists>s'. device_read ten_byte_state 20 20
           = (Returned 10, [1, 2, 3, 4, 5, 6, 7, 8, 9, 10], s') \<and> represents s' []"
    by (auto simp: ten_byte_cell_def)
  from r ne a b show ?thesis by blast
qed

text \<open>
  C5. Early stop at a zero byte. For the message at the head of a
  well-formed, non-empty queue and a user buffer writable for the bytes to
  deliver, \<open>device_read\<close> delivers the longest prefix without a zero byte of
  the first \<open>min length message_size\<close> bytes of the message, and returns the
  length of that prefix: the copy stops at the first zero byte, before
  \<open>length\<close> and the stored size are reached.
\<close>

theorem device_read_stops_at_zero:
  "represents s (c # cs) \<Longrightarrow> length (c_bytes c) = unat (c_size c) \<Longrightarrow>
   is_queue_empty s = 0 \<Longrightarrow>
   length (takeWhile (\<lambda>b. b \<noteq> 0) (take (min (unat len) (unat (c_size c))) (c_bytes c))) \<le> ucap \<Longrightarrow>
   \<exists>s'. device_read s ucap len
          = (Returned (int (length (takeWhile (\<lambda>b. b \<noteq> 0)
                 (take (min (unat len) (unat (c_size c))) (c_bytes c))))),
             takeWhile (\<lambda>b. b \<noteq> 0) (take (min (unat len) (unat (c_size c))) (c_bytes c)),
             s') \<and>
        represents s' cs"
proof -
  assume r: "represents s (c # cs)" and ws: "length (c_bytes c) = unat (c_size c)"
    and ne: "is_queue_empty s = 0"
    and cap: "length (takeWhile (\<lambda>b. b \<noteq> 0)
                (take (min (unat len) (unat (c_size c))) (c_bytes c))) \<le> ucap"
  let ?n = "min (unat len) (unat (c_size c))"
  have bound: "0 + ?n \<le> length (c_bytes c)"
    using ws by simp
  from cap have cap': "0 + length (takeWhile (\<lambda>b. b \<noteq> 0) (take ?n (drop 0 (c_bytes c)))) \<le> ucap"
    unfolding drop_0 by simp
  have loop: "read_loop ucap (Some (c_bytes c)) ?n 0 []
      = Copy_done (takeWhile (\<lambda>b. b \<noteq> 0) (take ?n (c_bytes c)))"
    using read_loop_done [OF bound cap', of "[]"]
    by (simp only: drop_0 append_Nil)
  from device_read_represents [OF r ws ne] obtain s' where
    s': "represents s' cs"
    and rd: "\<And>ucap len out.
      read_loop ucap (Some (c_bytes c)) (min (unat len) (unat (c_size c))) 0 [] = Copy_done out
        \<Longrightarrow> device_read s ucap len = (Returned (int (length out)), out, s')"
    by blast
  from rd [OF loop] s' show ?thesis
    by (intro exI [of _ s']) simp
qed

theorem device_read_stops_at_zero_witness:
  "represents zero_byte_state [zero_byte_cell] \<and>
   is_queue_empty zero_byte_state = 0 \<and>
   (\<exists>s'. device_read zero_byte_state 4 4 = (Returned 2, [72, 105], s') \<and> represents s' [])"
proof -
  have r: "represents zero_byte_state [zero_byte_cell]"
    by (simp add: represents_def zero_byte_state_def zero_byte_cell_def first_node_def
        last_node_def stored_bytes_def)
  have ws: "length (c_bytes zero_byte_cell) = unat (c_size zero_byte_cell)"
    by (simp add: zero_byte_cell_def)
  have ne: "is_queue_empty zero_byte_state = 0"
    by (simp add: is_queue_empty_def zero_byte_state_def)
  have cap: "length (takeWhile (\<lambda>b. b \<noteq> 0)
      (take (min (unat (4 :: size_t)) (unat (c_size zero_byte_cell))) (c_bytes zero_byte_cell))) \<le> 4"
    by (simp add: zero_byte_cell_def)
  from device_read_stops_at_zero [OF r ws ne cap]
  have "\<exists>s'. device_read zero_byte_state 4 4 = (Returned 2, [72, 105], s') \<and> represents s' []"
    by (auto simp: zero_byte_cell_def)
  with r ne show ?thesis by blast
qed

section \<open>Messages of length zero\<close>




section \<open>The capacity and byte-count invariant\<close>

lemma live_bytes_alloc:
  assumes "finite (dom (bufs s))" "bufs s m = None" "bufs s' = (bufs s)(m \<mapsto> b)"
  shows "live_bytes s' = live_bytes s + length b" "finite (dom (bufs s'))"
proof -
  from assms(2) have m: "m \<notin> dom (bufs s)" by (simp add: domIff)
  have d: "dom (bufs s') = insert m (dom (bufs s))"
    using assms(3) by simp
  have "(\<Sum>a\<in>dom (bufs s). length (the (bufs s' a))) = (\<Sum>a\<in>dom (bufs s). length (the (bufs s a)))"
  proof (rule sum.cong [OF refl])
    fix a assume "a \<in> dom (bufs s)"
    with m have "a \<noteq> m" by auto
    then show "length (the (bufs s' a)) = length (the (bufs s a))"
      using assms(3) by simp
  qed
  moreover have "length (the (bufs s' m)) = length b"
    using assms(3) by simp
  ultimately show "live_bytes s' = live_bytes s + length b"
    using assms(1) m d by (simp add: live_bytes_def)
  show "finite (dom (bufs s'))" using assms(1) d by simp
qed

lemma live_bytes_free:
  assumes "finite (dom (bufs s))" "bufs s m = Some b" "bufs s' = (bufs s)(m := None)"
  shows "live_bytes s' + length b = live_bytes s" "finite (dom (bufs s'))"
proof -
  have d: "dom (bufs s') = dom (bufs s) - {m}"
    using assms(3) by simp
  have m: "m \<in> dom (bufs s)" using assms(2) by (simp add: domI)
  have eq: "(\<Sum>a\<in>dom (bufs s) - {m}. length (the (bufs s' a)))
      = (\<Sum>a\<in>dom (bufs s) - {m}. length (the (bufs s a)))"
  proof (rule sum.cong [OF refl])
    fix a assume "a \<in> dom (bufs s) - {m}"
    then have "a \<noteq> m" by auto
    then show "length (the (bufs s' a)) = length (the (bufs s a))"
      using assms(3) by simp
  qed
  have "(\<Sum>a\<in>dom (bufs s). length (the (bufs s a)))
      = length (the (bufs s m)) + (\<Sum>a\<in>dom (bufs s) - {m}. length (the (bufs s a)))"
    using assms(1) m by (rule sum.remove)
  with eq d assms(2) show "live_bytes s' + length b = live_bytes s"
    by (simp add: live_bytes_def)
  show "finite (dom (bufs s'))" using assms(1) d by simp
qed

lemma unat_of_nat_ulong: "n < 2 ^ 64 \<Longrightarrow> unat (of_nat n :: ulong) = n"
  by (simp add: unat_of_nat)

lemma queue_inv_init: "queue_inv (init_state True) []"
  using represents_init
  by (simp add: queue_inv_def well_sized_def live_bytes_def stored_bytes_def init_state_def)

lemma queue_inv_ioctl:
  assumes inv: "queue_inv s cs" and io: "device_ioctl s ioctl_num x = (Returned r, s')"
  shows "queue_inv s' cs"
proof -
  from inv obtain q where q: "queuep s = Some q" "messages_size q = of_nat (stored_bytes cs)"
    by (auto simp: queue_inv_def represents_def split: option.splits)
  show ?thesis
  proof (cases "ioctl_num = CHANGE_MAX_MESSAGES_SIZE \<and> messages_size q < x")
    case True
    with io q have s': "s' = s\<lparr>MAX_MESSAGES_SIZE := x\<rparr>"
      by (simp add: device_ioctl_def)
    from inv have "represents s' cs"
      unfolding s' by (auto simp: queue_inv_def intro: represents_frame)
    moreover from True q have "(of_nat (stored_bytes cs) :: ulong) \<le> x"
      by (simp add: less_imp_le)
    ultimately show ?thesis
      using inv by (simp add: queue_inv_def s' live_bytes_def)
  next
    case False
    with io q have "s' = s"
      by (auto simp: device_ioctl_def split: if_splits)
    with inv show ?thesis by simp
  qed
qed

lemma queue_inv_read:
  assumes inv: "queue_inv s cs" and rd: "device_read s ucap len = (Returned r, out, s')"
  shows "\<exists>cs'. queue_inv s' cs'"
proof -
  from inv have r: "represents s cs" and ws: "well_sized cs" and fin: "finite (dom (bufs s))"
    and sl: "stored_bytes cs \<le> live_bytes s" and lb: "live_bytes s < 2 ^ 64"
    and mx: "(of_nat (stored_bytes cs) :: ulong) \<le> MAX_MESSAGES_SIZE s"
    by (simp_all add: queue_inv_def)
  from r obtain q where q: "queuep s = Some q" "messages_size q = of_nat (stored_bytes cs)"
    by (auto simp: represents_def split: option.splits)
  from rd have ne: "is_queue_empty s = 0"
    by (auto simp: device_read_def split: if_splits)
  with q have "cs \<noteq> []"
    by (auto simp: is_queue_empty_def stored_bytes_def split: if_splits)
  then obtain c cs' where cs: "cs = c # cs'" by (cases cs) auto
  from ws cs have wc: "length (c_bytes c) = unat (c_size c)" and ws': "well_sized cs'"
    by (simp_all add: well_sized_def)
  from device_read_represents [OF r [unfolded cs] wc ne] obtain s'' where
    r'': "represents s'' cs'" and b'': "bufs s'' = (bufs s)(c_msg c := None)"
    and m'': "MAX_MESSAGES_SIZE s'' = MAX_MESSAGES_SIZE s"
    and copied: "\<And>ucap len out.
      read_loop ucap (Some (c_bytes c)) (min (unat len) (unat (c_size c))) 0 [] = Copy_done out
        \<Longrightarrow> device_read s ucap len = (Returned (int (length out)), out, s'')"
    and efault: "\<And>ucap len out.
      read_loop ucap (Some (c_bytes c)) (min (unat len) (unat (c_size c))) 0 [] = Copy_efault out
        \<Longrightarrow> device_read s ucap len = (Returned (- EFAULT), out, s'')"
    by blast
  have "0 + min (unat len) (unat (c_size c)) \<le> length (c_bytes c)"
    using wc by simp
  from read_loop_no_oops [OF this, of ucap "[]"] copied [of ucap len] efault [of ucap len] rd
  have s': "s' = s''"
    by (cases "read_loop ucap (Some (c_bytes c)) (min (unat len) (unat (c_size c))) 0 []") auto
  from r cs have buf: "bufs s (c_msg c) = Some (c_bytes c)"
    by (simp add: represents_def)
  from live_bytes_free [OF fin buf b'']
  have lf: "live_bytes s'' + length (c_bytes c) = live_bytes s" and fin'': "finite (dom (bufs s''))"
    by simp_all
  have st: "stored_bytes cs = unat (c_size c) + stored_bytes cs'"
    using cs by (simp add: stored_bytes_def)
  from st sl lf wc have sl'': "stored_bytes cs' \<le> live_bytes s''" by simp
  from lf lb have lb'': "live_bytes s'' < 2 ^ 64" by simp
  from sl lb have b: "stored_bytes cs < 2 ^ 64" by simp
  with st have b': "stored_bytes cs' < 2 ^ 64" by simp
  have "unat (of_nat (stored_bytes cs') :: ulong) \<le> unat (of_nat (stored_bytes cs) :: ulong)"
    unfolding unat_of_nat_ulong [OF b] unat_of_nat_ulong [OF b'] using st by simp
  then have "(of_nat (stored_bytes cs') :: ulong) \<le> of_nat (stored_bytes cs)"
    by (simp add: word_le_nat_alt)
  with mx m'' have mx'': "(of_nat (stored_bytes cs') :: ulong) \<le> MAX_MESSAGES_SIZE s''"
    by simp
  from r'' ws' fin'' sl'' lb'' mx'' have "queue_inv s'' cs'"
    by (simp add: queue_inv_def)
  with s' show ?thesis by blast
qed

lemma queue_inv_write:
  assumes inv: "queue_inv s cs" and ok: "kmalloc_ok s km len"
    and wr: "device_write s km ubuf len = (Returned r, s')"
  shows "\<exists>cs'. queue_inv s' cs'"
proof (cases "MAX_MESSAGE_SIZE < len")
  case True
  with wr have "s' = s" by (simp add: device_write_def)
  with inv show ?thesis by blast
next
  case small: False
  then have len: "unat len \<le> 4096"
    by (simp add: MAX_MESSAGE_SIZE_def word_less_nat_alt not_less)
  then have sz: "unat (ucast len :: ushort) = unat len"
    by (simp add: unat_ucast_size_t)
  from small wr have sp: "is_space_in_queue s (ucast len) = 1"
    by (auto simp: device_write_def split: if_splits)
  from inv have r: "represents s cs" and ws: "well_sized cs" and fin: "finite (dom (bufs s))"
    and sl: "stored_bytes cs \<le> live_bytes s" and lb: "live_bytes s < 2 ^ 64"
    by (simp_all add: queue_inv_def)
  from ok have f: "kmalloc_fresh s km" by (simp add: kmalloc_ok_def)
  have qn: "queuep s \<noteq> None" using r by (rule represents_queuep)
  show ?thesis
  proof (cases "write_loop ubuf (unat len) 0 []")
    case None
    with small sp wr have "s' = s" by (simp add: device_write_def)
    with inv show ?thesis by blast
  next
    case (Some tmp)
    then have tmp: "length tmp = unat len"
      by (auto simp: write_loop_eq split: if_splits)
    show ?thesis
    proof (cases "km_node km = None \<or> km_data km = None \<or> km_message km = None")
      case True
      from enqueue_failure [OF qn f True, of tmp "ucast len"] small sp Some wr
      have "s' = s" by (simp add: device_write_def SUCCESS_def)
      with inv show ?thesis by blast
    next
      case False
      then obtain n d m where km: "km_node km = Some n" "km_data km = Some d"
          "km_message km = Some m" by auto
      let ?c = "new_cell n d m tmp (ucast len)"
      from enqueue_represents [OF r f km, of tmp "ucast len"] small sp Some wr
      have r': "represents s' (cs @ [?c])"
        and b': "bufs s' = (bufs s)(m \<mapsto> take (unat (ucast len :: ushort)) tmp)"
        and m': "MAX_MESSAGES_SIZE s' = MAX_MESSAGES_SIZE s"
        by (auto simp: device_write_def split: option.splits if_splits)
      from f km have fm: "bufs s m = None" by (simp add: kmalloc_fresh_def)
      from live_bytes_alloc [OF fin fm b'] sz tmp
      have la: "live_bytes s' = live_bytes s + unat len" and fin': "finite (dom (bufs s'))"
        by simp_all
      from ok km have room: "live_bytes s + unat len < 2 ^ 64" by (simp add: kmalloc_ok_def)
      have ws': "well_sized (cs @ [?c])"
        using ws sz tmp by (simp add: well_sized_def new_cell_def)
      have st: "stored_bytes (cs @ [?c]) = stored_bytes cs + unat len"
        using sz by (simp add: stored_bytes_snoc new_cell_def)
      from r obtain q where q: "queuep s = Some q" "messages_size q = of_nat (stored_bytes cs)"
        by (auto simp: represents_def split: option.splits)
      have "(of_nat (stored_bytes cs + unat len) :: ulong)
          = messages_size q + ucast (ucast len :: ushort)"
        unfolding q(2) sz [symmetric] by simp
      moreover from sp q have "messages_size q + ucast (ucast len :: ushort) \<le> MAX_MESSAGES_SIZE s"
        by (auto simp: is_space_in_queue_def not_less split: if_splits)
      ultimately have mx': "(of_nat (stored_bytes (cs @ [?c])) :: ulong) \<le> MAX_MESSAGES_SIZE s'"
        using st m' by simp
      from r' ws' fin' st sl la room mx' have "queue_inv s' (cs @ [?c])"
        by (simp add: queue_inv_def)
      then show ?thesis by blast
    qed
  qed
qed

lemma reachable_queue_inv: "reachable s \<Longrightarrow> \<exists>cs. queue_inv s cs"
proof (induction rule: reachable.induct)
  case reach_init
  show ?case using queue_inv_init by blast
next
  case (reach_write s km len ubuf r s')
  then show ?case by (blast intro: queue_inv_write)
next
  case (reach_read s ucap len r out s')
  then show ?case by (blast intro: queue_inv_read)
next
  case (reach_ioctl s ioctl_num ioctl_param r s')
  then show ?case by (blast intro: queue_inv_ioctl)
qed

text \<open>No file operation dereferences an invalid pointer in a reachable state.\<close>

lemma device_read_no_oops:
  assumes inv: "queue_inv s cs"
  shows "fst (device_read s ucap len) \<noteq> Oops"
proof (cases "is_queue_empty s = 0")
  case False
  then show ?thesis by (simp add: device_read_def)
next
  case ne: True
  from inv have r: "represents s cs" and ws: "well_sized cs"
    by (simp_all add: queue_inv_def)
  from r obtain q where q: "queuep s = Some q" "messages_size q = of_nat (stored_bytes cs)"
    by (auto simp: represents_def split: option.splits)
  with ne have "cs \<noteq> []"
    by (auto simp: is_queue_empty_def stored_bytes_def split: if_splits)
  then obtain c cs' where cs: "cs = c # cs'" by (cases cs) auto
  from ws cs have wc: "length (c_bytes c) = unat (c_size c)"
    by (simp add: well_sized_def)
  from device_read_represents [OF r [unfolded cs] wc ne] obtain s'' where
    copied: "\<And>ucap len out.
      read_loop ucap (Some (c_bytes c)) (min (unat len) (unat (c_size c))) 0 [] = Copy_done out
        \<Longrightarrow> device_read s ucap len = (Returned (int (length out)), out, s'')"
    and efault: "\<And>ucap len out.
      read_loop ucap (Some (c_bytes c)) (min (unat len) (unat (c_size c))) 0 [] = Copy_efault out
        \<Longrightarrow> device_read s ucap len = (Returned (- EFAULT), out, s'')"
    by blast
  have "0 + min (unat len) (unat (c_size c)) \<le> length (c_bytes c)"
    using wc by simp
  from read_loop_no_oops [OF this, of ucap "[]"] copied [of ucap len] efault [of ucap len]
  show ?thesis
    by (cases "read_loop ucap (Some (c_bytes c)) (min (unat len) (unat (c_size c))) 0 []") auto
qed

lemma device_write_no_oops:
  assumes inv: "queue_inv s cs" and f: "kmalloc_fresh s km"
  shows "fst (device_write s km ubuf len) \<noteq> Oops"
proof -
  from inv have r: "represents s cs" by (simp add: queue_inv_def)
  have qn: "queuep s \<noteq> None" using r by (rule represents_queuep)
  have "enqueue s km msg sz \<noteq> None" for msg sz
  proof (cases "km_node km = None \<or> km_data km = None \<or> km_message km = None")
    case True
    from enqueue_failure [OF qn f True, of msg sz] show ?thesis by simp
  next
    case False
    then obtain n d m where km: "km_node km = Some n" "km_data km = Some d"
        "km_message km = Some m" by auto
    from enqueue_represents [OF r f km, of msg sz] show ?thesis
      by (auto split: option.splits)
  qed
  note e = this
  show ?thesis
  proof (cases "write_loop ubuf (unat len) 0 []")
    case None
    then show ?thesis by (simp add: device_write_def)
  next
    case (Some tmp)
    from e [of tmp "ucast len"] obtain rr s1 where "enqueue s km tmp (ucast len) = Some (rr, s1)"
      by (cases "enqueue s km tmp (ucast len)") auto
    with Some show ?thesis by (simp add: device_write_def)
  qed
qed

lemma device_ioctl_no_oops:
  assumes inv: "queue_inv s cs"
  shows "fst (device_ioctl s ioctl_num x) \<noteq> Oops"
  using represents_queuep [of s cs] inv
  by (auto simp: device_ioctl_def queue_inv_def split: if_splits)

lemma reachable_no_oops:
  assumes "reachable s"
  shows "fst (device_read s ucap len) \<noteq> Oops"
    and "fst (device_ioctl s ioctl_num x) \<noteq> Oops"
    and "kmalloc_fresh s km \<Longrightarrow> fst (device_write s km ubuf len') \<noteq> Oops"
proof -
  from assms obtain cs where inv: "queue_inv s cs" using reachable_queue_inv by blast
  from inv show "fst (device_read s ucap len) \<noteq> Oops" by (rule device_read_no_oops)
  from inv show "fst (device_ioctl s ioctl_num x) \<noteq> Oops" by (rule device_ioctl_no_oops)
  from inv show "kmalloc_fresh s km \<Longrightarrow> fst (device_write s km ubuf len') \<noteq> Oops"
    by (rule device_write_no_oops)
qed

text \<open>
  When the file operations do not overlap, the invariant holds. Take any
  state reached from module initialisation by file operations that each
  run to their end before the next starts, with an allocator that hands out
  addresses that are not live and never has \<open>2 ^ 64\<close> or more bytes of message
  buffers live. There the nodes linked from \<open>head\<close> form a list \<open>cs\<close> (the only
  one the state represents), \<open>messages_size\<close> is at most \<open>MAX_MESSAGES_SIZE\<close>
  and \<open>messages_size\<close> is exactly the sum of the \<open>message_size\<close> fields of the
  messages of \<open>cs\<close>.
\<close>

lemma sequential_capacity_invariant:
  "reachable s \<Longrightarrow>
   \<exists>q cs. queuep s = Some q \<and> represents s cs \<and>
     messages_size q \<le> MAX_MESSAGES_SIZE s \<and>
     unat (messages_size q) = sum_list (map (\<lambda>c. unat (c_size c)) cs)"
proof -
  assume "reachable s"
  then obtain cs where inv: "queue_inv s cs" using reachable_queue_inv by blast
  then obtain q where q: "queuep s = Some q" "messages_size q = of_nat (stored_bytes cs)"
    by (auto simp: queue_inv_def represents_def split: option.splits)
  from inv have "stored_bytes cs < 2 ^ 64" by (simp add: queue_inv_def)
  then have "unat (messages_size q) = stored_bytes cs"
    unfolding q(2) by (rule unat_of_nat_ulong)
  with inv q show ?thesis
    by (auto simp: queue_inv_def stored_bytes_def)
qed

section \<open>First in, first out through the file operations\<close>










section \<open>Two senders racing for the last free bytes\<close>

lemma device_write_phases:
  "device_write s km ubuf len =
     (case device_write_admit s ubuf len of
        Finished r \<Rightarrow> (r, s)
      | Waiting b l \<Rightarrow> (Blocked, s)
      | Admitted b l \<Rightarrow> device_write_commit s km b l)"
  by (simp add: device_write_def device_write_admit_def device_write_commit_def)

lemma limit8_state_eq:
  "limit8_state =
     \<lparr>queuep = Some \<lparr>head = None, rear = None, messages_size = 0\<rparr>, MAX_MESSAGES_SIZE = 8,
      nodes = Map.empty, datas = Map.empty, bufs = Map.empty\<rparr>"
  by (simp add: limit8_state_def device_ioctl_def init_state_def initialise_queue_def)

text \<open>
  C8. Concurrent admission. The admission test and the enqueue are two
  separate locked regions, so the code does not have the property: with the
  limit at 8 bytes, an empty queue and two senders of 8 bytes each, the
  schedule in which both senders run \<open>is_space_in_queue\<close> before either runs
  \<open>enqueue\<close> admits both; both writes return 8 and \<open>messages_size\<close> ends at 16,
  twice the limit. (When the first sender finishes before the second tests,
  the second one sleeps and the count stays at 8.)
\<close>

theorem concurrent_senders_overshoot:
  "(case run_schedule limit8_state two_senders [(0, km_a), (1, km_b), (0, km_a), (1, km_b)] of
      (s, ts) \<Rightarrow>
        ts = [Finished (Returned 8), Finished (Returned 8)] \<and>
        MAX_MESSAGES_SIZE s = 8 \<and>
        (case queuep s of None \<Rightarrow> False | Some q \<Rightarrow> messages_size q = 16)) \<and>
   (case run_schedule limit8_state two_senders [(0, km_a), (0, km_a), (1, km_b)] of
      (s, ts) \<Rightarrow>
        ts = [Finished (Returned 8), Waiting [9, 10, 11, 12, 13, 14, 15, 16] 8] \<and>
        (case queuep s of None \<Rightarrow> False | Some q \<Rightarrow> messages_size q = 8))"
  by (simp add: limit8_state_eq two_senders_def km_a_def km_b_def sender_step_def
      device_write_admit_def device_write_commit_def is_space_in_queue_def MAX_MESSAGE_SIZE_def
      write_loop_eq enqueue_def enqueue_link_def SUCCESS_def EFAULT_def EINVAL_def)

text \<open>
  C6. Capacity and byte-count invariant: the code does not keep the half
  about the limit. The admission test and the enqueue of \<open>device_write\<close> are
  two locked regions, so with the limit at 8 bytes and two senders of 8
  bytes the schedule above ends, both senders returned and no operation
  under way, in a state whose queue holds both messages: \<open>messages_size\<close> is
  16, the exact sum of the two stored lengths, and exceeds
  \<open>MAX_MESSAGES_SIZE\<close>, which is 8.
\<close>

theorem race_breaks_capacity_invariant:
  "snd (run_schedule limit8_state two_senders race_schedule)
     = [Finished (Returned 8), Finished (Returned 8)] \<and>
   represents race_final
     [\<lparr>c_node = 1, c_data = 2, c_msg = 3, c_bytes = [1, 2, 3, 4, 5, 6, 7, 8], c_size = 8\<rparr>,
      \<lparr>c_node = 4, c_data = 5, c_msg = 6, c_bytes = [9, 10, 11, 12, 13, 14, 15, 16],
        c_size = 8\<rparr>] \<and>
   queuep race_final = Some \<lparr>head = Some 1, rear = Some 4, messages_size = 16\<rparr> \<and>
   MAX_MESSAGES_SIZE race_final = 8 \<and>
   \<not> (16 :: ulong) \<le> MAX_MESSAGES_SIZE race_final"
proof -
  have run: "run_schedule limit8_state two_senders race_schedule =
      (\<lparr>queuep = Some \<lparr>head = Some 1, rear = Some 4, messages_size = 16\<rparr>,
        MAX_MESSAGES_SIZE = 8,
        nodes = [1 \<mapsto> \<lparr>data = Some 2, nxt = Some 4\<rparr>, 4 \<mapsto> \<lparr>data = Some 5, nxt = None\<rparr>],
        datas = [2 \<mapsto> \<lparr>message = Some 3, message_size = 8\<rparr>,
                 5 \<mapsto> \<lparr>message = Some 6, message_size = 8\<rparr>],
        bufs = [3 \<mapsto> [1, 2, 3, 4, 5, 6, 7, 8], 6 \<mapsto> [9, 10, 11, 12, 13, 14, 15, 16]]\<rparr>,
       [Finished (Returned 8), Finished (Returned 8)])"
    by (simp add: limit8_state_eq two_senders_def race_schedule_def km_a_def km_b_def
        sender_step_def device_write_admit_def device_write_commit_def is_space_in_queue_def
        MAX_MESSAGE_SIZE_def write_loop_eq enqueue_def enqueue_link_def SUCCESS_def EFAULT_def
        EINVAL_def fun_upd_twist)
  show ?thesis
    by (simp add: race_final_def run represents_def first_node_def last_node_def
        stored_bytes_def word_le_nat_alt)
qed

end
